theory Spec2Isabelle
  imports Complex_Main "HOL-Library.Word"
begin

unbundle bit_operations_syntax

section \<open>FF3 format-preserving encryption: the model of lib/FF3Cipher.js\<close>

text \<open>
  The theory embeds \<^verbatim>\<open>lib/FF3Cipher.js\<close>. Strings are \<open>string\<close>, bytes of a
  \<^verbatim>\<open>Buffer\<close> or \<^verbatim>\<open>Uint8Array\<close> are \<open>8 word\<close>, a BigInt is an \<open>int\<close>, every
  \<^verbatim>\<open>throw\<close> is a value \<open>Inl e\<close>. The AES primitive of Node's \<^verbatim>\<open>crypto\<close> module is
  not part of the repository: \<^verbatim>\<open>crypto.createCipheriv\<close> is a parameter of the
  constructor, and the handle it returns (one 16-byte block in, one block out, ECB, no
  padding) is a field of the cipher object.
\<close>

type_synonym byte = "8 word"

datatype error =
    InvalidKeyLength       \<comment> \<open>\<^verbatim>\<open>key length ... but must be 128, 192, or 256 bits\<close>\<close>
  | InvalidRadix           \<comment> \<open>\<^verbatim>\<open>radix must be between 2 and 36, inclusive\<close>\<close>
  | InvalidDomainBounds    \<comment> \<open>\<^verbatim>\<open>minLen or maxLen invalid, adjust your radix\<close>\<close>
  | InvalidTweakLength     \<comment> \<open>\<^verbatim>\<open>tweak length ... is invalid: tweak must be 56 or 64 bits\<close>\<close>
  | InvalidMessageLength   \<comment> \<open>\<^verbatim>\<open>message length ... is not within min ... and max ... bounds\<close>\<close>
  | NotInRadix             \<comment> \<open>\<^verbatim>\<open>string A is not within base/radix\<close>, rethrown by the rounds\<close>
  | RangeError             \<comment> \<open>thrown by the runtime: \<^verbatim>\<open>BigInt(NaN)\<close>, a remainder by \<^verbatim>\<open>0n\<close>,
                               \<^verbatim>\<open>toString\<close> with a bad radix, \<^verbatim>\<open>TypedArray.set\<close> out of bounds\<close>
  | SyntaxError            \<comment> \<open>thrown by the runtime: \<^verbatim>\<open>BigInt('0x')\<close>\<close>

subsection \<open>Module constants\<close>

definition DOMAIN_MIN :: nat where "DOMAIN_MIN = 1000000"
definition NUM_ROUNDS :: nat where "NUM_ROUNDS = 8"
definition BLOCK_SIZE :: nat where "BLOCK_SIZE = 16"
definition TWEAK_LEN :: nat where "TWEAK_LEN = 8"
definition TWEAK_LEN_NEW :: nat where "TWEAK_LEN_NEW = 7"
definition HALF_TWEAK_LEN :: nat where "HALF_TWEAK_LEN = TWEAK_LEN div 2"
definition MAX_RADIX :: int where "MAX_RADIX = 36"

subsection \<open>The runtime's digits, \<^verbatim>\<open>parseInt\<close>, \<^verbatim>\<open>BigInt.toString\<close>, hex buffers\<close>

text \<open>The value of a digit as \<^verbatim>\<open>parseInt\<close> reads it: decimal digits, then letters of
  either case.\<close>

definition digitValue :: "char \<Rightarrow> int option" where
  "digitValue c =
     (let k = (of_char c :: int)
      in if 48 \<le> k \<and> k \<le> 57 then Some (k - 48)
         else if 97 \<le> k \<and> k \<le> 122 then Some (k - 87)
         else if 65 \<le> k \<and> k \<le> 90 then Some (k - 55)
         else None)"

text \<open>The digit \<^verbatim>\<open>BigInt.prototype.toString\<close> writes: \<^verbatim>\<open>0\<close>..\<^verbatim>\<open>9\<close>, then lower-case
  \<^verbatim>\<open>a\<close>..\<^verbatim>\<open>z\<close>.\<close>

definition digitChar :: "int \<Rightarrow> char" where
  "digitChar d = (if d < 10 then char_of (48 + d) else char_of (87 + d))"

definition isDigitOf :: "int \<Rightarrow> char \<Rightarrow> bool" where
  "isDigitOf R c = (case digitValue c of None \<Rightarrow> False | Some d \<Rightarrow> d < R)"

text \<open>Most significant digit first; characters that are no digits count as 0 (the
  callers pass digits only).\<close>

definition digitsValue :: "int \<Rightarrow> string \<Rightarrow> int" where
  "digitsValue R s = foldl (\<lambda>acc c. acc * R + (case digitValue c of None \<Rightarrow> 0 | Some d \<Rightarrow> d)) 0 s"

definition isWhiteSpace :: "char \<Rightarrow> bool" where
  "isWhiteSpace c = ((of_char c :: int) \<in> {9, 10, 11, 12, 13, 32, 160})"

definition ToInt32 :: "int \<Rightarrow> int" where
  "ToInt32 x = (x + 2 ^ 31) mod 2 ^ 32 - 2 ^ 31"

text \<open>
  \<^verbatim>\<open>parseInt(string, radix)\<close> for an integral radix: white space is skipped, a sign is
  read, \<^verbatim>\<open>0x\<close> is skipped when the radix is 16 (or 0), the longest prefix of digits of
  the radix is the value, and \<open>None\<close> stands for \<^verbatim>\<open>NaN\<close>. The runtime returns a double;
  the value is exact below \<open>2 ^ 53\<close>, which holds for the arguments of at most ten
  characters that \<^verbatim>\<open>convertToBigInt\<close> passes (\<open>36 ^ 10 < 2 ^ 53\<close>).
\<close>

definition parseInt :: "string \<Rightarrow> int \<Rightarrow> int option" where
  "parseInt str radix =
     (let s1 = dropWhile isWhiteSpace str;
          neg = (s1 \<noteq> [] \<and> hd s1 = CHR ''-'');
          s2 = (if s1 \<noteq> [] \<and> (hd s1 = CHR ''-'' \<or> hd s1 = CHR ''+'') then tl s1 else s1);
          R0 = ToInt32 radix
      in if R0 \<noteq> 0 \<and> (R0 < 2 \<or> R0 > 36) then None
         else
           let prefix = ((R0 = 0 \<or> R0 = 16) \<and> (take 2 s2 = ''0x'' \<or> take 2 s2 = ''0X''));
               R = (if prefix then 16 else if R0 = 0 then 10 else R0);
               s3 = (if prefix then drop 2 s2 else s2);
               z = takeWhile (isDigitOf R) s3
           in if z = [] then None
              else Some ((if neg then - 1 else 1) * digitsValue R z))"

text \<open>The digits of a nonnegative number, most significant first (\<^verbatim>\<open>"0"\<close> for
  zero).\<close>

function natToDigits :: "int \<Rightarrow> int \<Rightarrow> string" where
  "natToDigits R n =
     (if R < 2 \<or> n < R then [digitChar n]
      else natToDigits R (n div R) @ [digitChar (n mod R)])"
  by pat_completeness auto
termination
proof (relation "measure (\<lambda>(R, n). nat n)")
  show "wf (measure (\<lambda>(R, n). nat n))" by simp
next
  fix R n :: int
  assume a: "\<not> (R < 2 \<or> n < R)"
  then have "0 < n" "2 \<le> R" by simp_all
  then have "n div R < n" by (simp add: int_div_less_self)
  moreover have "0 \<le> n div R" using a by (simp add: pos_imp_zdiv_nonneg_iff)
  ultimately show "((R, n div R), (R, n)) \<in> measure (\<lambda>(R, n). nat n)" by simp
qed

text \<open>\<^verbatim>\<open>big.toString(radix)\<close> of a BigInt: a \<^verbatim>\<open>RangeError\<close> outside 2..36, a minus sign
  for a negative value.\<close>

definition toString :: "int \<Rightarrow> int \<Rightarrow> error + string" where
  "toString big radix =
     (if radix < 2 \<or> radix > 36 then Inl RangeError
      else if big < 0 then Inr (CHR ''-'' # natToDigits radix (- big))
      else Inr (natToDigits radix big))"

text \<open>\<^verbatim>\<open>Buffer.from(s, 'hex')\<close>: pairs of hex digits, cut at the first pair that is not
  one; a last single character is dropped.\<close>

fun hexDecode :: "string \<Rightarrow> byte list" where
  "hexDecode (a # b # rest) =
     (if isDigitOf 16 a \<and> isDigitOf 16 b
      then word_of_int (digitsValue 16 [a, b]) # hexDecode rest
      else [])"
| "hexDecode _ = []"

text \<open>\<^verbatim>\<open>BigInt('0x' + S.toString('hex'))\<close>: the bytes read as one big-endian number; the
  empty buffer gives \<^verbatim>\<open>BigInt('0x')\<close>, a \<^verbatim>\<open>SyntaxError\<close>.\<close>

definition bytesValue :: "byte list \<Rightarrow> int" where
  "bytesValue bs = foldl (\<lambda>acc b. acc * 256 + uint b) 0 bs"

definition BigInt_hex :: "byte list \<Rightarrow> error + int" where
  "BigInt_hex S = (if S = [] then Inl SyntaxError else Inr (bytesValue S))"

text \<open>Reading index \<open>k\<close> of a buffer: out of range the runtime gives \<^verbatim>\<open>undefined\<close>, which
  the bit operations and the stores into a byte array turn into 0.\<close>

definition byteAt :: "byte list \<Rightarrow> nat \<Rightarrow> byte" where
  "byteAt W k = (if k < length W then W ! k else 0)"

subsection \<open>The helpers of the module\<close>

definition reverseString :: "string \<Rightarrow> string" where
  "reverseString s = rev s"

text \<open>The \<^verbatim>\<open>while\<close> loop of \<^verbatim>\<open>convertToBigInt\<close>, which pushes the slices of ten
  characters.\<close>

function pushParts :: "string \<Rightarrow> nat \<Rightarrow> string list \<Rightarrow> string list" where
  "pushParts val i parts =
     (if i < length val then pushParts val (i + 10) (parts @ [take 10 (drop i val)])
      else parts)"
  by pat_completeness auto
termination
  by (relation "measure (\<lambda>(val, i, parts). length val - i)") auto

text \<open>The \<^verbatim>\<open>reduce\<close> of \<^verbatim>\<open>convertToBigInt\<close>; \<^verbatim>\<open>BigInt(NaN)\<close> throws.\<close>

fun reduceParts :: "int \<Rightarrow> int \<Rightarrow> string list \<Rightarrow> int \<Rightarrow> error + int" where
  "reduceParts radix factor [] r = Inr r"
| "reduceParts radix factor (v # vs) r =
     (case parseInt v radix of
        None \<Rightarrow> Inl RangeError
      | Some p \<Rightarrow> reduceParts radix factor vs (r * factor + p))"

definition convertToBigInt :: "string \<Rightarrow> int \<Rightarrow> error + int" where
  "convertToBigInt val radix =
     (let size = 10;
          factor = radix ^ size;
          i = (if length val mod size = 0 then size else length val mod size);
          parts = pushParts val i [take i val]
      in reduceParts radix factor parts 0)"

text \<open>The byte loop of \<^verbatim>\<open>bigToUint8Array\<close> over the hex digits, two at a time.\<close>

fun hexBytes :: "string \<Rightarrow> byte list" where
  "hexBytes (a # b # rest) =
     (case parseInt [a, b] 16 of None \<Rightarrow> 0 | Some x \<Rightarrow> word_of_int x) # hexBytes rest"
| "hexBytes _ = []"

definition bigToUint8Array :: "int \<Rightarrow> byte list" where
  "bigToUint8Array big0 =
     (let big = (if big0 < 0
                 then big0 + 2 ^ ((Suc (length (natToDigits 2 (- big0))) div 8 + 1) * 8)
                 else big0);
          hex = natToDigits 16 big;
          hex' = (if odd (length hex) then CHR ''0'' # hex else hex)
      in hexBytes hex')"

subsection \<open>The static methods\<close>

text \<open>The remainder \<^verbatim>\<open>%\<close> of BigInt truncates towards zero and throws on \<^verbatim>\<open>0n\<close>.\<close>

definition bigint_rem :: "int \<Rightarrow> int \<Rightarrow> int" where
  "bigint_rem n m = sgn n * (\<bar>n\<bar> mod \<bar>m\<bar>)"

definition mod_FF3 :: "int \<Rightarrow> int \<Rightarrow> error + int" where
  "mod_FF3 n m = (if m = 0 then Inl RangeError else Inr (bigint_rem (bigint_rem n m + m) m))"

definition calculateP :: "nat \<Rightarrow> int \<Rightarrow> byte list \<Rightarrow> string \<Rightarrow> error + byte list" where
  "calculateP i radix W B =
     (let P = [byteAt W 0, byteAt W 1, byteAt W 2, byteAt W 3 XOR word_of_nat i]
              @ replicate (BLOCK_SIZE - 4) 0
      in case convertToBigInt (reverseString B) radix of
           Inl e \<Rightarrow> Inl e
         | Inr big \<Rightarrow>
             let bBytes = bigToUint8Array big
             in if length bBytes > BLOCK_SIZE then Inl RangeError
                else Inr (take (BLOCK_SIZE - length bBytes) P @ bBytes))"

definition calculateTweak64_FF3_1 :: "byte list \<Rightarrow> byte list" where
  "calculateTweak64_FF3_1 tweak56 =
     [byteAt tweak56 0, byteAt tweak56 1, byteAt tweak56 2,
      byteAt tweak56 3 AND 0xF0,
      byteAt tweak56 4, byteAt tweak56 5, byteAt tweak56 6,
      push_bit 4 (byteAt tweak56 3 AND 0x0F)]"

subsection \<open>The cipher object\<close>

record FF3Cipher =
  radix :: int
  minLen :: int
  maxLen :: int
  tweakBytes :: "byte list"
  aesCipher :: "byte list \<Rightarrow> byte list"

text \<open>
  The constructor. \<^verbatim>\<open>Math.log\<close>, the division, \<^verbatim>\<open>Math.ceil\<close> and \<^verbatim>\<open>Math.floor\<close> are
  read over the reals; the source evaluates them in double precision.
\<close>

definition FF3Cipher_constructor ::
  "(string \<Rightarrow> byte list \<Rightarrow> byte list \<Rightarrow> byte list) \<Rightarrow> string \<Rightarrow> string \<Rightarrow> int
     \<Rightarrow> error + FF3Cipher" where
  "FF3Cipher_constructor createCipheriv key tweak rdx =
     (let keyBytes = rev (hexDecode key);
          minL = \<lceil>ln (real DOMAIN_MIN) / ln (real_of_int rdx)\<rceil>;
          maxL = 2 * \<lfloor>ln (2 ^ 96) / ln (real_of_int rdx)\<rfloor>;
          keyLen = length keyBytes
      in if keyLen \<noteq> 16 \<and> keyLen \<noteq> 24 \<and> keyLen \<noteq> 32 then Inl InvalidKeyLength
         else
           let algo = (if keyLen = 16 then ''aes-128-ecb''
                       else if keyLen = 24 then ''aes-192-ecb'' else ''aes-256-ecb'')
           in if rdx < 2 \<or> rdx > MAX_RADIX then Inl InvalidRadix
              else if minL < 2 \<or> maxL < minL then Inl InvalidDomainBounds
              else
                let tb = hexDecode tweak;
                    tb' = (if length tb = TWEAK_LEN_NEW then calculateTweak64_FF3_1 tb else tb)
                in Inr \<lparr> radix = rdx, minLen = minL, maxLen = maxL, tweakBytes = tb',
                         aesCipher = createCipheriv algo keyBytes \<rparr>)"

subsection \<open>The rounds\<close>

text \<open>Lines 269 to 272 of \<^verbatim>\<open>encrypt\<close> (379 to 382 of \<^verbatim>\<open>decrypt\<close>): the digits of \<open>c\<close>,
  reversed, followed by \<^verbatim>\<open>"00000000".substring(0, m - C.length)\<close>.\<close>

definition renderC :: "int \<Rightarrow> int \<Rightarrow> nat \<Rightarrow> error + string" where
  "renderC c rdx m =
     (case toString c rdx of
        Inl e \<Rightarrow> Inl e
      | Inr C0 \<Rightarrow>
          let C = reverseString C0
          in Inr (C @ take (m - length C) ''00000000''))"

text \<open>Lines 240 to 249: the block \<open>P\<close>, reversed, through the cipher, the result
  reversed and read as a number.\<close>

definition roundY :: "FF3Cipher \<Rightarrow> nat \<Rightarrow> byte list \<Rightarrow> string \<Rightarrow> error + int" where
  "roundY ctx i W X =
     (case calculateP i (radix ctx) W X of
        Inl e \<Rightarrow> Inl e
      | Inr P \<Rightarrow> BigInt_hex (rev (aesCipher ctx (rev P))))"

text \<open>One pass of the loop body of \<^verbatim>\<open>encrypt\<close> on the state \<open>(A, B)\<close>.\<close>

definition encryptRound ::
  "FF3Cipher \<Rightarrow> nat \<Rightarrow> nat \<Rightarrow> nat \<Rightarrow> string \<times> string \<Rightarrow> error + string \<times> string" where
  "encryptRound ctx u v i st =
     (let A = fst st; B = snd st;
          Tl = take HALF_TWEAK_LEN (tweakBytes ctx);
          Tr = take (TWEAK_LEN - HALF_TWEAK_LEN) (drop HALF_TWEAK_LEN (tweakBytes ctx));
          modU = radix ctx ^ u;
          modV = radix ctx ^ v;
          m = (if i mod 2 = 0 then u else v);
          W = (if i mod 2 = 0 then Tr else Tl)
      in case roundY ctx i W B of
           Inl e \<Rightarrow> Inl e
         | Inr y \<Rightarrow>
            (case convertToBigInt (reverseString A) (radix ctx) of
               Inl e \<Rightarrow> Inl NotInRadix
             | Inr c0 \<Rightarrow>
                (case mod_FF3 (c0 + y) (if i mod 2 = 0 then modU else modV) of
                   Inl e \<Rightarrow> Inl e
                 | Inr c \<Rightarrow>
                    (case renderC c (radix ctx) m of
                       Inl e \<Rightarrow> Inl e
                     | Inr C \<Rightarrow> Inr (B, C)))))"

text \<open>One pass of the loop body of \<^verbatim>\<open>decrypt\<close>.\<close>

definition decryptRound ::
  "FF3Cipher \<Rightarrow> nat \<Rightarrow> nat \<Rightarrow> nat \<Rightarrow> string \<times> string \<Rightarrow> error + string \<times> string" where
  "decryptRound ctx u v i st =
     (let A = fst st; B = snd st;
          Tl = take HALF_TWEAK_LEN (tweakBytes ctx);
          Tr = take (TWEAK_LEN - HALF_TWEAK_LEN) (drop HALF_TWEAK_LEN (tweakBytes ctx));
          modU = radix ctx ^ u;
          modV = radix ctx ^ v;
          m = (if i mod 2 = 0 then u else v);
          W = (if i mod 2 = 0 then Tr else Tl)
      in case roundY ctx i W A of
           Inl e \<Rightarrow> Inl e
         | Inr y \<Rightarrow>
            (case convertToBigInt (reverseString B) (radix ctx) of
               Inl e \<Rightarrow> Inl NotInRadix
             | Inr c0 \<Rightarrow>
                (case mod_FF3 (c0 - y) (if i mod 2 = 0 then modU else modV) of
                   Inl e \<Rightarrow> Inl e
                 | Inr c \<Rightarrow>
                    (case renderC c (radix ctx) m of
                       Inl e \<Rightarrow> Inl e
                     | Inr C \<Rightarrow> Inr (C, A)))))"

text \<open>The \<^verbatim>\<open>for\<close> loops, over the round indices in the order the loop visits them.\<close>

fun runRounds ::
  "(nat \<Rightarrow> string \<times> string \<Rightarrow> error + string \<times> string) \<Rightarrow> nat list \<Rightarrow> string \<times> string
     \<Rightarrow> error + string \<times> string" where
  "runRounds step [] st = Inr st"
| "runRounds step (i # is) st =
     (case step i st of Inl e \<Rightarrow> Inl e | Inr st' \<Rightarrow> runRounds step is st')"

definition encrypt :: "FF3Cipher \<Rightarrow> string \<Rightarrow> error + string" where
  "encrypt ctx plaintext =
     (let n = length plaintext
      in if int n < minLen ctx \<or> int n > maxLen ctx then Inl InvalidMessageLength
         else if length (tweakBytes ctx) \<noteq> TWEAK_LEN \<and> length (tweakBytes ctx) \<noteq> TWEAK_LEN_NEW
           then Inl InvalidTweakLength
         else
           let u = (n + 1) div 2;
               v = n - u;
               A = take u plaintext;
               B = drop u plaintext
           in case runRounds (encryptRound ctx u v) [0 ..< NUM_ROUNDS] (A, B) of
                Inl e \<Rightarrow> Inl e
              | Inr (A', B') \<Rightarrow> Inr (A' @ B'))"

definition decrypt :: "FF3Cipher \<Rightarrow> string \<Rightarrow> error + string" where
  "decrypt ctx ciphertext =
     (let n = length ciphertext
      in if int n < minLen ctx \<or> int n > maxLen ctx then Inl InvalidMessageLength
         else if length (tweakBytes ctx) \<noteq> TWEAK_LEN \<and> length (tweakBytes ctx) \<noteq> TWEAK_LEN_NEW
           then Inl InvalidTweakLength
         else
           let u = (n + 1) div 2;
               v = n - u;
               A = take u ciphertext;
               B = drop u ciphertext
           in case runRounds (decryptRound ctx u v) (rev [0 ..< NUM_ROUNDS]) (A, B) of
                Inl e \<Rightarrow> Inl e
              | Inr (A', B') \<Rightarrow> Inr (A' @ B'))"

subsection \<open>The alphabet of a radix\<close>

text \<open>The symbols of a radix are the first \<open>radix\<close> characters of \<^verbatim>\<open>0\<close>..\<^verbatim>\<open>9\<close>,
  \<^verbatim>\<open>a\<close>..\<^verbatim>\<open>z\<close>: a character is one of them when it is the lower-case digit of a
  value below the radix. A digit string is a string of such symbols.\<close>

definition alphabet :: string where
  "alphabet = ''0123456789abcdefghijklmnopqrstuvwxyz''"

definition inAlphabet :: "int \<Rightarrow> char \<Rightarrow> bool" where
  "inAlphabet R c = (case digitValue c of None \<Rightarrow> False | Some d \<Rightarrow> d < R \<and> digitChar d = c)"

definition validDigits :: "int \<Rightarrow> string \<Rightarrow> bool" where
  "validDigits R s = list_all (inAlphabet R) s"

text \<open>The number a half stands for in the rounds: its digits reversed, read in the
  radix.\<close>

definition num :: "int \<Rightarrow> string \<Rightarrow> int" where
  "num R s = digitsValue R (reverseString s)"

subsection \<open>Notions used to state the properties of the rounds\<close>

text \<open>The string that lines 270 to 272 produce from a non-negative \<open>c\<close> in a radix of
  2..36; the tweak half and the length \<open>m\<close> of round \<open>i\<close>; states whose halves are
  non-empty digit strings, of at most \<open>u\<close> characters, of values below the modulus of
  their round; and states that stand for the same two numbers.\<close>

definition rendered :: "int \<Rightarrow> nat \<Rightarrow> int \<Rightarrow> string" where
  "rendered R m c =
     rev (natToDigits R c) @ replicate (min 8 (m - length (natToDigits R c))) CHR ''0''"

definition roundW :: "FF3Cipher \<Rightarrow> nat \<Rightarrow> byte list" where
  "roundW ctx i = (if i mod 2 = 0 then take 4 (drop 4 (tweakBytes ctx)) else take 4 (tweakBytes ctx))"

definition roundM :: "nat \<Rightarrow> nat \<Rightarrow> nat \<Rightarrow> nat" where
  "roundM u v i = (if i mod 2 = 0 then u else v)"

definition okState :: "int \<Rightarrow> string \<times> string \<Rightarrow> bool" where
  "okState R st = (validDigits R (fst st) \<and> fst st \<noteq> [] \<and> validDigits R (snd st) \<and> snd st \<noteq> [])"

definition halvesOk :: "int \<Rightarrow> nat \<Rightarrow> string \<times> string \<Rightarrow> bool" where
  "halvesOk R u st = (okState R st \<and> length (fst st) \<le> u \<and> length (snd st) \<le> u)"

definition classOk :: "int \<Rightarrow> nat \<Rightarrow> nat \<Rightarrow> nat \<Rightarrow> string \<times> string \<Rightarrow> bool" where
  "classOk R u v j st =
     (num R (fst st) < R ^ roundM u v j \<and> num R (snd st) < R ^ roundM u v (Suc j))"

definition sameNums :: "int \<Rightarrow> string \<times> string \<Rightarrow> string \<times> string \<Rightarrow> bool" where
  "sameNums R st st' =
     (okState R st' \<and> num R (fst st') = num R (fst st) \<and> num R (snd st') = num R (snd st))"

subsection \<open>Concrete inputs\<close>

text \<open>Stand-ins for the cipher primitive (the identity permutation of the blocks; one
  that adds the key to the block byte by byte, so that its result depends on the order
  of the key bytes; and one that agrees with the second on the keys whose first byte is
  \<open>0x94\<close> and reverses the block otherwise), the key and the tweak of the first NIST
  sample, the cipher objects the constructor builds from them, and a message of 192
  characters whose last one is a minus sign; they serve to instantiate the theorems
  below at concrete inputs.\<close>

definition idCipher :: "string \<Rightarrow> byte list \<Rightarrow> byte list \<Rightarrow> byte list" where
  "idCipher algo key block = block"

definition xorCipher :: "string \<Rightarrow> byte list \<Rightarrow> byte list \<Rightarrow> byte list" where
  "xorCipher algo key block = map (\<lambda>(b, k). b XOR k) (zip block key)"

definition otherCipher :: "string \<Rightarrow> byte list \<Rightarrow> byte list \<Rightarrow> byte list" where
  "otherCipher algo key block = (if hd key = 0x94 then xorCipher algo key block else rev block)"

definition sampleKey :: string where
  "sampleKey = ''EF4359D8D580AA4F7F036D6F04FC6A94''"

definition sampleCtx :: "int \<Rightarrow> int \<Rightarrow> int \<Rightarrow> byte list \<Rightarrow> FF3Cipher" where
  "sampleCtx r mn mx tw = \<lparr> radix = r, minLen = mn, maxLen = mx, tweakBytes = tw,
       aesCipher = idCipher ''aes-128-ecb''
         [0x94, 0x6A, 0xFC, 0x04, 0x6F, 0x6D, 0x03, 0x7F, 0x4F, 0xAA, 0x80, 0xD5, 0xD8, 0x59, 0x43, 0xEF] \<rparr>"

definition sampleTweak :: "byte list" where
  "sampleTweak = [0xD8, 0xE7, 0x92, 0x0A, 0xFA, 0x33, 0x0A, 0x73]"

definition xorCtx :: FF3Cipher where
  "xorCtx = \<lparr> radix = 10, minLen = 6, maxLen = 56, tweakBytes = sampleTweak,
       aesCipher = xorCipher ''aes-128-ecb''
         [0x94, 0x6A, 0xFC, 0x04, 0x6F, 0x6D, 0x03, 0x7F, 0x4F, 0xAA, 0x80, 0xD5, 0xD8, 0x59, 0x43, 0xEF] \<rparr>"


section \<open>The modular reduction\<close>

lemma bigint_rem_nonneg: "0 \<le> n \<Longrightarrow> 0 < m \<Longrightarrow> bigint_rem n m = n mod m"
  by (simp add: bigint_rem_def sgn_if)

lemma bigint_rem_bounds: "0 < m \<Longrightarrow> - m < bigint_rem n m \<and> bigint_rem n m < m"
proof -
  assume m: "0 < m"
  have "0 \<le> \<bar>n\<bar> mod \<bar>m\<bar>" "\<bar>n\<bar> mod \<bar>m\<bar> < m"
    using m by simp_all
  then show ?thesis
    by (cases "n < 0"; cases "n = 0") (simp_all add: bigint_rem_def sgn_if)
qed

lemma bigint_rem_cong: "0 < m \<Longrightarrow> (bigint_rem n m) mod m = n mod m"
proof (cases "n < 0")
  case False
  assume "0 < m"
  with False show ?thesis by (simp add: bigint_rem_def sgn_if)
next
  case True
  assume m: "0 < m"
  from True m have "bigint_rem n m = - ((- n) mod m)"
    by (simp add: bigint_rem_def sgn_if)
  then show ?thesis by (simp add: mod_minus_eq)
qed

lemma mod_FF3_eq: "0 < m \<Longrightarrow> mod_FF3 n m = Inr (n mod m)"
proof -
  assume m: "0 < m"
  let ?r = "bigint_rem n m"
  have b: "0 \<le> ?r + m" using bigint_rem_bounds [OF m, of n] by simp
  have "bigint_rem (?r + m) m = (?r + m) mod m"
    by (rule bigint_rem_nonneg [OF b m])
  also have "\<dots> = ?r mod m" by simp
  also have "\<dots> = n mod m" by (rule bigint_rem_cong [OF m])
  finally show ?thesis using m by (simp add: mod_FF3_def)
qed

section \<open>The length bounds of the constructor\<close>

lemma ceiling_ln_quot:
  fixes b x :: real and k :: nat
  assumes b: "1 < b" and lo: "b ^ k < x" and hi: "x \<le> b ^ Suc k"
  shows "\<lceil>ln x / ln b\<rceil> = int (Suc k)"
proof -
  have x: "0 < x" using lo b by (meson less_trans zero_less_power zero_less_one)
  have p1: "b powr real k = b ^ k" using b by (simp add: powr_realpow)
  have p2: "b powr real (Suc k) = b ^ Suc k" using b by (subst powr_realpow) simp_all
  have "real k < log b x" using lo b x p1 by (simp add: less_log_iff)
  moreover have "log b x \<le> real (Suc k)" using hi b x p2 by (simp add: log_le_iff del: power_Suc)
  ultimately have "\<lceil>log b x\<rceil> = int (Suc k)"
    by (intro ceiling_unique) simp_all
  then show ?thesis by (simp add: log_def)
qed

lemma floor_ln_quot:
  fixes b x :: real and k :: nat
  assumes b: "1 < b" and lo: "b ^ k \<le> x" and hi: "x < b ^ Suc k"
  shows "\<lfloor>ln x / ln b\<rfloor> = int k"
proof -
  have x: "0 < x" using lo b by (meson less_le_trans zero_less_power zero_less_one less_trans)
  have p1: "b powr real k = b ^ k" using b by (simp add: powr_realpow)
  have p2: "b powr real (Suc k) = b ^ Suc k" using b by (subst powr_realpow) simp_all
  have "real k \<le> log b x" using lo b x p1 by (simp add: le_log_iff)
  moreover have "log b x < real (Suc k)" using hi b x p2 by (simp add: log_less_iff del: power_Suc)
  ultimately have "\<lfloor>log b x\<rfloor> = int k"
    by (intro floor_unique) simp_all
  then show ?thesis by (simp add: log_def)
qed

lemma minLen_10: "\<lceil>ln (real DOMAIN_MIN) / ln (real_of_int 10)\<rceil> = 6"
  using ceiling_ln_quot [of 10 5 "real DOMAIN_MIN"] by (simp add: DOMAIN_MIN_def)

lemma maxLen_10: "2 * \<lfloor>ln (2 ^ 96) / ln (real_of_int 10)\<rfloor> = 56"
  using floor_ln_quot [of 10 28 "2 ^ 96"] by simp

lemma minLen_26: "\<lceil>ln (real DOMAIN_MIN) / ln (real_of_int 26)\<rceil> = 5"
  using ceiling_ln_quot [of 26 4 "real DOMAIN_MIN"] by (simp add: DOMAIN_MIN_def)

lemma maxLen_26: "2 * \<lfloor>ln (2 ^ 96) / ln (real_of_int 26)\<rfloor> = 40"
  using floor_ln_quot [of 26 20 "2 ^ 96"] by simp

lemma minLen_36: "\<lceil>ln (real DOMAIN_MIN) / ln (real_of_int 36)\<rceil> = 4"
  using ceiling_ln_quot [of 36 3 "real DOMAIN_MIN"] by (simp add: DOMAIN_MIN_def)

lemma maxLen_36: "2 * \<lfloor>ln (2 ^ 96) / ln (real_of_int 36)\<rfloor> = 36"
  using floor_ln_quot [of 36 18 "2 ^ 96"] by simp



lemma constructor_Inr:
  assumes "FF3Cipher_constructor cc key tweak rdx = Inr ctx"
  shows "length (hexDecode key) \<in> {16, 24, 32}"
    and "2 \<le> rdx" and "rdx \<le> 36"
    and "radix ctx = rdx"
    and "minLen ctx = \<lceil>ln (real DOMAIN_MIN) / ln (real_of_int rdx)\<rceil>"
    and "maxLen ctx = 2 * \<lfloor>ln (2 ^ 96) / ln (real_of_int rdx)\<rfloor>"
    and "2 \<le> minLen ctx" and "minLen ctx \<le> maxLen ctx"
    and "tweakBytes ctx = (if length (hexDecode tweak) = 7 then calculateTweak64_FF3_1 (hexDecode tweak)
                           else hexDecode tweak)"
    and "aesCipher ctx = cc (if length (hexDecode key) = 16 then ''aes-128-ecb''
                             else if length (hexDecode key) = 24 then ''aes-192-ecb''
                             else ''aes-256-ecb'') (rev (hexDecode key))"
  using assms
  by (auto simp: FF3Cipher_constructor_def Let_def MAX_RADIX_def TWEAK_LEN_NEW_def
           split: if_splits)

lemma ln_quot_bounds:
  fixes r :: int
  assumes r2: "2 \<le> r" and r36: "r \<le> 36"
  shows "4 \<le> \<lceil>ln (real DOMAIN_MIN) / ln (real_of_int r)\<rceil>"
    and "\<lceil>ln (real DOMAIN_MIN) / ln (real_of_int r)\<rceil> \<le> 20"
    and "36 \<le> 2 * \<lfloor>ln (2 ^ 96) / ln (real_of_int r)\<rfloor>"
proof -
  let ?b = "real_of_int r"
  have b1: "1 < ?b" and b0: "0 \<le> ?b" and b2: "2 \<le> ?b" and b36: "?b \<le> 36"
    using r2 r36 by simp_all
  have q: "ln x / ln ?b = log ?b x" for x by (simp add: log_def)
  have "?b ^ 3 \<le> 36 ^ 3" using b36 b0 by (rule power_mono)
  then have "?b powr 3 < 1000000" using b1 by (simp add: powr_numeral [symmetric] del: powr_numeral)
  then have "3 < log ?b 1000000" using b1 by (simp add: less_log_iff)
  then show "4 \<le> \<lceil>ln (real DOMAIN_MIN) / ln ?b\<rceil>"
    unfolding q by (simp add: DOMAIN_MIN_def less_ceiling_iff [symmetric] del: less_ceiling_iff)
  have "(2::real) ^ 20 \<le> ?b ^ 20" using b2 by (intro power_mono) simp_all
  then have "1000000 \<le> ?b powr 20" using b1 by simp
  then have "log ?b 1000000 \<le> 20" using b1 by (simp add: log_le_iff)
  then show "\<lceil>ln (real DOMAIN_MIN) / ln ?b\<rceil> \<le> 20"
    unfolding q by (simp add: DOMAIN_MIN_def ceiling_le_iff)
  have "?b ^ 18 \<le> 36 ^ 18" using b36 b0 by (rule power_mono)
  then have "?b powr 18 \<le> 2 ^ 96" using b1 by simp
  then have "18 \<le> log ?b (2 ^ 96)" using b1 by (simp add: le_log_iff)
  then have "18 \<le> \<lfloor>log ?b (2 ^ 96)\<rfloor>" by (simp add: le_floor_iff)
  then show "36 \<le> 2 * \<lfloor>ln (2 ^ 96) / ln ?b\<rfloor>"
    unfolding q by simp
qed

lemma floor_ln_quot_pow:
  fixes r :: int
  assumes r2: "2 \<le> r"
  shows "0 \<le> \<lfloor>ln (2 ^ 96) / ln (real_of_int r)\<rfloor>"
    and "r ^ nat \<lfloor>ln (2 ^ 96) / ln (real_of_int r)\<rfloor> \<le> 2 ^ 96"
proof -
  let ?b = "real_of_int r"
  let ?f = "\<lfloor>ln (2 ^ 96) / ln ?b\<rfloor>"
  have b1: "1 < ?b" using r2 by simp
  have q: "ln (2 ^ 96) / ln ?b = log ?b (2 ^ 96)" by (simp add: log_def)
  have "0 \<le> log ?b (2 ^ 96)" using b1 by (simp add: zero_le_log_cancel_iff)
  then show f0: "0 \<le> ?f" unfolding q by simp
  have "real_of_int ?f \<le> log ?b (2 ^ 96)" unfolding q by simp
  then have "?b powr (real_of_int ?f) \<le> 2 ^ 96" using b1 by (simp add: le_log_iff)
  moreover have "?b powr (real_of_int ?f) = ?b ^ nat ?f"
    using b1 f0 by (simp only: powr_real_of_int) simp
  ultimately have "?b ^ nat ?f \<le> 2 ^ 96" by (simp only:)
  then have "real_of_int (r ^ nat ?f) \<le> real_of_int (2 ^ 96)" by simp
  then show "r ^ nat ?f \<le> 2 ^ 96" by (simp only: of_int_le_iff)
qed

lemma constructor_succeeds:
  assumes "length (hexDecode key) \<in> {16, 24, 32}" and "2 \<le> rdx" and "rdx \<le> 36"
  shows "FF3Cipher_constructor cc key tweak rdx =
     Inr \<lparr> radix = rdx,
           minLen = \<lceil>ln (real DOMAIN_MIN) / ln (real_of_int rdx)\<rceil>,
           maxLen = 2 * \<lfloor>ln (2 ^ 96) / ln (real_of_int rdx)\<rfloor>,
           tweakBytes = (if length (hexDecode tweak) = 7 then calculateTweak64_FF3_1 (hexDecode tweak)
                         else hexDecode tweak),
           aesCipher = cc (if length (hexDecode key) = 16 then ''aes-128-ecb''
                           else if length (hexDecode key) = 24 then ''aes-192-ecb''
                           else ''aes-256-ecb'') (rev (hexDecode key)) \<rparr>"
proof -
  note b = ln_quot_bounds [OF assms(2,3)]
  have "\<not> (\<lceil>ln (real DOMAIN_MIN) / ln (real_of_int rdx)\<rceil> < 2)" using b(1) by linarith
  moreover have "\<not> (2 * \<lfloor>ln (2 ^ 96) / ln (real_of_int rdx)\<rfloor>
                     < \<lceil>ln (real DOMAIN_MIN) / ln (real_of_int rdx)\<rceil>)"
    using b(2,3) by linarith
  ultimately show ?thesis
    using assms
    by (auto simp: FF3Cipher_constructor_def Let_def MAX_RADIX_def TWEAK_LEN_NEW_def)
qed

lemma hexDecode_sampleKey:
  "hexDecode sampleKey = [0xEF, 0x43, 0x59, 0xD8, 0xD5, 0x80, 0xAA, 0x4F, 0x7F, 0x03, 0x6D, 0x6F, 0x04, 0xFC, 0x6A, 0x94]"
  unfolding sampleKey_def by code_simp

lemma constructor_sample_any:
  assumes "2 \<le> r" and "r \<le> 36"
  shows "FF3Cipher_constructor idCipher sampleKey tweak r =
     Inr (sampleCtx r \<lceil>ln (real DOMAIN_MIN) / ln (real_of_int r)\<rceil>
                      (2 * \<lfloor>ln (2 ^ 96) / ln (real_of_int r)\<rfloor>)
            (if length (hexDecode tweak) = 7 then calculateTweak64_FF3_1 (hexDecode tweak)
             else hexDecode tweak))"
proof -
  have "length (hexDecode sampleKey) \<in> {16, 24, 32}" by (simp add: hexDecode_sampleKey)
  from constructor_succeeds [OF this assms, of idCipher tweak]
  show ?thesis
    unfolding hexDecode_sampleKey sampleCtx_def by simp
qed

lemma constructor_sample:
  "FF3Cipher_constructor idCipher sampleKey tweak 10 =
     Inr (sampleCtx 10 6 56 (if length (hexDecode tweak) = 7 then calculateTweak64_FF3_1 (hexDecode tweak)
                     else hexDecode tweak))"
  using constructor_sample_any [of 10 tweak] unfolding minLen_10 maxLen_10 by simp

lemma hexDecode_tweak8: "hexDecode ''D8E7920AFA330A73'' = [0xD8, 0xE7, 0x92, 0x0A, 0xFA, 0x33, 0x0A, 0x73]"
  by code_simp

lemma hexDecode_tweak7: "hexDecode ''D8E7920AFA330A'' = [0xD8, 0xE7, 0x92, 0x0A, 0xFA, 0x33, 0x0A]"
  by code_simp

lemma hexDecode_tweak4: "hexDecode ''D8E7920A'' = [0xD8, 0xE7, 0x92, 0x0A]"
  by code_simp

section \<open>Claims on the static methods and the constructor\<close>

text \<open>
  C6. For every integer \<open>n\<close>, negative ones included, and every positive \<open>m\<close>, the
  reduction \<^verbatim>\<open>mod(n, m) = ((n % m) + m) % m\<close> returns the Euclidean remainder: it does
  not throw, its result \<open>r\<close> is the remainder \<open>n mod m\<close> of the floored division, it
  satisfies \<open>0 \<le> r < m\<close>, and \<open>m\<close> divides \<open>n - r\<close>. The argument may be the
  negative difference that a round of \<^verbatim>\<open>decrypt\<close> forms.
\<close>

theorem mod_FF3_euclidean:
  "0 < m \<Longrightarrow> mod_FF3 n m = Inr (n mod m) \<and> 0 \<le> n mod m \<and> n mod m < m \<and> m dvd (n - n mod m)"
  by (simp add: mod_FF3_eq dvd_minus_mod)

text \<open>The instance of the repository's own test: a negative difference reduced modulo
  \<open>10 ^ 9\<close>.\<close>

theorem mod_FF3_euclidean_witness:
  "(0::int) < 1000000000 \<and>
   mod_FF3 (706456850 - 316291629567414359958402343312719325709) 1000000000 = Inr 987131141"
  using mod_FF3_euclidean [of 1000000000 "706456850 - 316291629567414359958402343312719325709"]
  by simp

lemma nibble_recombine: "(x AND 0xF0) OR drop_bit 4 (push_bit 4 (x AND 0x0F)) = (x :: byte)"
proof -
  have m15: "(0x0F :: byte) = mask 4" by (simp add: mask_eq_exp_minus_1)
  have m240: "(0xF0 :: byte) = push_bit 4 (mask 4)"
    by (simp add: mask_eq_exp_minus_1 push_bit_eq_mult)
  show ?thesis
    unfolding m15 m240 by (rule bit_word_eqI) (auto simp: bit_simps)
qed

lemma list7: "length t = 7 \<Longrightarrow> t = [t ! 0, t ! 1, t ! 2, t ! 3, t ! 4, t ! 5, t ! 6]"
  by (rule nth_equalityI) (auto simp: nth_Cons' numeral_eq_Suc less_Suc_eq)

text \<open>
  C4. The constructor expands a tweak \<open>t\<close> of 7 bytes to the 8 bytes
  \<open>t[0], t[1], t[2], t[3] & 0xF0, t[4], t[5], t[6], (t[3] & 0x0F) << 4\<close>, from which \<open>t\<close> is
  read back (so the 56 bits are kept), and it leaves a tweak of 8 bytes unchanged.
\<close>

theorem tweak_expansion:
  assumes "FF3Cipher_constructor cc key tweak rdx = Inr ctx" and "t = hexDecode tweak"
  shows "(length t = 7 \<longrightarrow>
            tweakBytes ctx = [t ! 0, t ! 1, t ! 2, t ! 3 AND 0xF0, t ! 4, t ! 5, t ! 6,
                              push_bit 4 (t ! 3 AND 0x0F)]
          \<and> t = [tweakBytes ctx ! 0, tweakBytes ctx ! 1, tweakBytes ctx ! 2,
                 tweakBytes ctx ! 3 OR drop_bit 4 (tweakBytes ctx ! 7),
                 tweakBytes ctx ! 4, tweakBytes ctx ! 5, tweakBytes ctx ! 6])
       \<and> (length t = 8 \<longrightarrow> tweakBytes ctx = t)"
proof (intro conjI impI)
  assume l: "length t = 7"
  show e: "tweakBytes ctx = [t ! 0, t ! 1, t ! 2, t ! 3 AND 0xF0, t ! 4, t ! 5, t ! 6,
                              push_bit 4 (t ! 3 AND 0x0F)]"
    using constructor_Inr(9) [OF assms(1)] l assms(2)
    by (simp add: calculateTweak64_FF3_1_def byteAt_def)
  show "t = [tweakBytes ctx ! 0, tweakBytes ctx ! 1, tweakBytes ctx ! 2,
                 tweakBytes ctx ! 3 OR drop_bit 4 (tweakBytes ctx ! 7),
                 tweakBytes ctx ! 4, tweakBytes ctx ! 5, tweakBytes ctx ! 6]"
    using list7 [OF l] nibble_recombine [of "t ! 3"] unfolding e by (simp del: push_bit_and)
next
  assume "length t = 8"
  then show "tweakBytes ctx = t"
    using constructor_Inr(9) [OF assms(1)] assms(2) by simp
qed

text \<open>The 7-byte tweak of the FF3-1 test and the 8-byte tweak of the first NIST sample.\<close>

theorem tweak_expansion_witness:
  "FF3Cipher_constructor idCipher sampleKey ''D8E7920AFA330A'' 10
     = Inr (sampleCtx 10 6 56 [0xD8, 0xE7, 0x92, 0x00, 0xFA, 0x33, 0x0A, 0xA0])
   \<and> length (hexDecode ''D8E7920AFA330A'') = 7
   \<and> tweakBytes (sampleCtx 10 6 56 [0xD8, 0xE7, 0x92, 0x00, 0xFA, 0x33, 0x0A, 0xA0])
       = [0xD8, 0xE7, 0x92, 0x0A AND 0xF0, 0xFA, 0x33, 0x0A, push_bit 4 (0x0A AND 0x0F)]
   \<and> FF3Cipher_constructor idCipher sampleKey ''D8E7920AFA330A73'' 10
     = Inr (sampleCtx 10 6 56 [0xD8, 0xE7, 0x92, 0x0A, 0xFA, 0x33, 0x0A, 0x73])
   \<and> length (hexDecode ''D8E7920AFA330A73'') = 8
   \<and> tweakBytes (sampleCtx 10 6 56 [0xD8, 0xE7, 0x92, 0x0A, 0xFA, 0x33, 0x0A, 0x73])
       = hexDecode ''D8E7920AFA330A73''"
proof -
  have c7: "FF3Cipher_constructor idCipher sampleKey ''D8E7920AFA330A'' 10
     = Inr (sampleCtx 10 6 56 [0xD8, 0xE7, 0x92, 0x00, 0xFA, 0x33, 0x0A, 0xA0])"
    unfolding constructor_sample hexDecode_tweak7
    by (simp add: calculateTweak64_FF3_1_def byteAt_def)
  have c8: "FF3Cipher_constructor idCipher sampleKey ''D8E7920AFA330A73'' 10
     = Inr (sampleCtx 10 6 56 [0xD8, 0xE7, 0x92, 0x0A, 0xFA, 0x33, 0x0A, 0x73])"
    unfolding constructor_sample hexDecode_tweak8 by simp
  note a = tweak_expansion [OF c7 refl, unfolded hexDecode_tweak7]
   and b = tweak_expansion [OF c8 refl, unfolded hexDecode_tweak8]
  show ?thesis
    unfolding hexDecode_tweak7 hexDecode_tweak8 using a b c7 c8 by simp
qed

text \<open>
  C7. The bounds the constructor derives are \<open>minLen = \<lceil>log\<^bsub>radix\<^esub> 1000000\<rceil>\<close> and
  \<open>maxLen = 2 * \<lfloor>log\<^bsub>radix\<^esub> (2 ^ 96)\<rfloor>\<close>; radix 10 gives 6 and 56, radix 26 gives 5
  and 40, radix 36 gives 4 and 36. (The logarithms are those of the reals, see the
  constructor.)
\<close>

theorem length_bounds:
  assumes "FF3Cipher_constructor cc key tweak rdx = Inr ctx"
  shows "minLen ctx = \<lceil>log (real_of_int rdx) 1000000\<rceil>
       \<and> maxLen ctx = 2 * \<lfloor>log (real_of_int rdx) (2 ^ 96)\<rfloor>
       \<and> (rdx = 10 \<longrightarrow> minLen ctx = 6 \<and> maxLen ctx = 56)
       \<and> (rdx = 26 \<longrightarrow> minLen ctx = 5 \<and> maxLen ctx = 40)
       \<and> (rdx = 36 \<longrightarrow> minLen ctx = 4 \<and> maxLen ctx = 36)"
proof -
  note c = constructor_Inr [OF assms]
  have "minLen ctx = \<lceil>log (real_of_int rdx) 1000000\<rceil>"
    unfolding c(5) by (simp add: log_def DOMAIN_MIN_def)
  moreover have "maxLen ctx = 2 * \<lfloor>log (real_of_int rdx) (2 ^ 96)\<rfloor>"
    unfolding c(6) by (simp add: log_def)
  moreover have "rdx = 10 \<longrightarrow> minLen ctx = 6 \<and> maxLen ctx = 56"
    unfolding c(5) c(6) using minLen_10 maxLen_10 by blast
  moreover have "rdx = 26 \<longrightarrow> minLen ctx = 5 \<and> maxLen ctx = 40"
    unfolding c(5) c(6) using minLen_26 maxLen_26 by blast
  moreover have "rdx = 36 \<longrightarrow> minLen ctx = 4 \<and> maxLen ctx = 36"
    unfolding c(5) c(6) using minLen_36 maxLen_36 by blast
  ultimately show ?thesis by blast
qed

text \<open>The constructor at the radices 10, 26 and 36.\<close>

theorem length_bounds_witness:
  "FF3Cipher_constructor idCipher sampleKey ''D8E7920AFA330A73'' 10
      = Inr (sampleCtx 10 6 56 [0xD8, 0xE7, 0x92, 0x0A, 0xFA, 0x33, 0x0A, 0x73])
   \<and> minLen (sampleCtx 10 6 56 [0xD8, 0xE7, 0x92, 0x0A, 0xFA, 0x33, 0x0A, 0x73]) = 6
   \<and> maxLen (sampleCtx 10 6 56 [0xD8, 0xE7, 0x92, 0x0A, 0xFA, 0x33, 0x0A, 0x73]) = 56
   \<and> FF3Cipher_constructor idCipher sampleKey ''D8E7920AFA330A73'' 26
      = Inr (sampleCtx 26 5 40 [0xD8, 0xE7, 0x92, 0x0A, 0xFA, 0x33, 0x0A, 0x73])
   \<and> minLen (sampleCtx 26 5 40 [0xD8, 0xE7, 0x92, 0x0A, 0xFA, 0x33, 0x0A, 0x73]) = 5
   \<and> maxLen (sampleCtx 26 5 40 [0xD8, 0xE7, 0x92, 0x0A, 0xFA, 0x33, 0x0A, 0x73]) = 40
   \<and> FF3Cipher_constructor idCipher sampleKey ''D8E7920AFA330A73'' 36
      = Inr (sampleCtx 36 4 36 [0xD8, 0xE7, 0x92, 0x0A, 0xFA, 0x33, 0x0A, 0x73])
   \<and> minLen (sampleCtx 36 4 36 [0xD8, 0xE7, 0x92, 0x0A, 0xFA, 0x33, 0x0A, 0x73]) = 4
   \<and> maxLen (sampleCtx 36 4 36 [0xD8, 0xE7, 0x92, 0x0A, 0xFA, 0x33, 0x0A, 0x73]) = 36"
proof -
  have c10: "FF3Cipher_constructor idCipher sampleKey ''D8E7920AFA330A73'' 10
      = Inr (sampleCtx 10 6 56 [0xD8, 0xE7, 0x92, 0x0A, 0xFA, 0x33, 0x0A, 0x73])"
    using constructor_sample_any [of 10 "''D8E7920AFA330A73''"]
    unfolding minLen_10 maxLen_10 hexDecode_tweak8 by simp
  have c26: "FF3Cipher_constructor idCipher sampleKey ''D8E7920AFA330A73'' 26
      = Inr (sampleCtx 26 5 40 [0xD8, 0xE7, 0x92, 0x0A, 0xFA, 0x33, 0x0A, 0x73])"
    using constructor_sample_any [of 26 "''D8E7920AFA330A73''"]
    unfolding minLen_26 maxLen_26 hexDecode_tweak8 by simp
  have c36: "FF3Cipher_constructor idCipher sampleKey ''D8E7920AFA330A73'' 36
      = Inr (sampleCtx 36 4 36 [0xD8, 0xE7, 0x92, 0x0A, 0xFA, 0x33, 0x0A, 0x73])"
    using constructor_sample_any [of 36 "''D8E7920AFA330A73''"]
    unfolding minLen_36 maxLen_36 hexDecode_tweak8 by simp
  show ?thesis
    using length_bounds [OF c10] length_bounds [OF c26] length_bounds [OF c36] c10 c26 c36
    by simp
qed

section \<open>Claims on the checks of encrypt and decrypt\<close>

text \<open>
  C8. For every cipher object and every input whose length is below \<open>minLen\<close> or above
  \<open>maxLen\<close>, \<^verbatim>\<open>encrypt\<close> and \<^verbatim>\<open>decrypt\<close> fail with the message-length error and return
  no string. The failure comes before any round: it is the same whatever block cipher
  \<open>f\<close> the object holds.
\<close>

theorem message_length_checked_first:
  assumes "int (length x) < minLen ctx \<or> maxLen ctx < int (length x)"
  shows "encrypt ctx x = Inl InvalidMessageLength
       \<and> decrypt ctx x = Inl InvalidMessageLength
       \<and> encrypt (ctx\<lparr>aesCipher := f\<rparr>) x = Inl InvalidMessageLength
       \<and> decrypt (ctx\<lparr>aesCipher := f\<rparr>) x = Inl InvalidMessageLength"
  using assms by (auto simp: encrypt_def decrypt_def Let_def)

text \<open>An input of 5 digits and one of 57 digits at radix 10.\<close>

theorem message_length_checked_first_witness:
  "int (length ''12345'') < minLen (sampleCtx 10 6 56 [0xD8, 0xE7, 0x92, 0x0A, 0xFA, 0x33, 0x0A, 0x73])
   \<and> encrypt (sampleCtx 10 6 56 [0xD8, 0xE7, 0x92, 0x0A, 0xFA, 0x33, 0x0A, 0x73]) ''12345''
       = Inl InvalidMessageLength
   \<and> decrypt (sampleCtx 10 6 56 [0xD8, 0xE7, 0x92, 0x0A, 0xFA, 0x33, 0x0A, 0x73]) ''12345''
       = Inl InvalidMessageLength
   \<and> maxLen (sampleCtx 10 6 56 [0xD8, 0xE7, 0x92, 0x0A, 0xFA, 0x33, 0x0A, 0x73])
       < int (length ''012345678901234567890123456789012345678901234567890123456'')
   \<and> encrypt (sampleCtx 10 6 56 [0xD8, 0xE7, 0x92, 0x0A, 0xFA, 0x33, 0x0A, 0x73])
        ''012345678901234567890123456789012345678901234567890123456'' = Inl InvalidMessageLength
   \<and> decrypt (sampleCtx 10 6 56 [0xD8, 0xE7, 0x92, 0x0A, 0xFA, 0x33, 0x0A, 0x73])
        ''012345678901234567890123456789012345678901234567890123456'' = Inl InvalidMessageLength"
proof -
  let ?c = "sampleCtx 10 6 56 [0xD8, 0xE7, 0x92, 0x0A, 0xFA, 0x33, 0x0A, 0x73]"
  have a: "int (length ''12345'') < minLen ?c \<or> maxLen ?c < int (length ''12345'')"
    by (simp add: sampleCtx_def)
  have b: "int (length ''012345678901234567890123456789012345678901234567890123456'') < minLen ?c
           \<or> maxLen ?c < int (length ''012345678901234567890123456789012345678901234567890123456'')"
    by (simp add: sampleCtx_def)
  show ?thesis
    using message_length_checked_first [OF a] message_length_checked_first [OF b]
    by (simp add: sampleCtx_def)
qed

text \<open>
  C3 as stated fails: the constructor has no check of the tweak length. With a tweak of 4
  bytes it returns a cipher object.
\<close>

theorem short_tweak_constructs:
  "length (hexDecode ''D8E7920A'') = 4
   \<and> FF3Cipher_constructor idCipher sampleKey ''D8E7920A'' 10
       = Inr (sampleCtx 10 6 56 [0xD8, 0xE7, 0x92, 0x0A])
   \<and> FF3Cipher_constructor idCipher sampleKey ''D8E7920A'' 10 \<noteq> Inl InvalidTweakLength"
  unfolding constructor_sample hexDecode_tweak4 by simp

text \<open>
  C3, amended. A tweak whose hex string decodes to a length other than 7 or 8 bytes is
  not refused by the constructor: construction never fails with the tweak-length error,
  and it succeeds whenever the key has 16, 24 or 32 bytes and the radix is in 2..36,
  keeping the tweak as decoded. The length of the tweak is checked by \<^verbatim>\<open>encrypt\<close> and
  \<^verbatim>\<open>decrypt\<close>, after the length of the message: with such a tweak every call fails,
  with the tweak-length error when the message length is within the bounds, and no call
  returns a string.
\<close>

theorem tweak_length_checked_on_use:
  assumes "length (hexDecode tweak) \<noteq> 7" and "length (hexDecode tweak) \<noteq> 8"
  shows "FF3Cipher_constructor cc key tweak rdx \<noteq> Inl InvalidTweakLength
       \<and> (length (hexDecode key) \<in> {16, 24, 32} \<and> 2 \<le> rdx \<and> rdx \<le> 36
            \<longrightarrow> (\<exists>ctx. FF3Cipher_constructor cc key tweak rdx = Inr ctx))
       \<and> (\<forall>ctx x. FF3Cipher_constructor cc key tweak rdx = Inr ctx
            \<longrightarrow> tweakBytes ctx = hexDecode tweak
              \<and> encrypt ctx x = Inl (if int (length x) < minLen ctx \<or> maxLen ctx < int (length x)
                                      then InvalidMessageLength else InvalidTweakLength)
              \<and> decrypt ctx x = Inl (if int (length x) < minLen ctx \<or> maxLen ctx < int (length x)
                                      then InvalidMessageLength else InvalidTweakLength))"
proof (intro conjI allI impI)
  show "FF3Cipher_constructor cc key tweak rdx \<noteq> Inl InvalidTweakLength"
    by (simp add: FF3Cipher_constructor_def Let_def)
next
  assume "length (hexDecode key) \<in> {16, 24, 32} \<and> 2 \<le> rdx \<and> rdx \<le> 36"
  then show "\<exists>ctx. FF3Cipher_constructor cc key tweak rdx = Inr ctx"
    using constructor_succeeds [of key rdx cc tweak] by blast
next
  fix ctx x
  assume c: "FF3Cipher_constructor cc key tweak rdx = Inr ctx"
  show t: "tweakBytes ctx = hexDecode tweak"
    using constructor_Inr(9) [OF c] assms by simp
  show "encrypt ctx x = Inl (if int (length x) < minLen ctx \<or> maxLen ctx < int (length x)
                                      then InvalidMessageLength else InvalidTweakLength)"
    using assms by (auto simp: encrypt_def Let_def t TWEAK_LEN_def TWEAK_LEN_NEW_def)
  show "decrypt ctx x = Inl (if int (length x) < minLen ctx \<or> maxLen ctx < int (length x)
                                      then InvalidMessageLength else InvalidTweakLength)"
    using assms by (auto simp: decrypt_def Let_def t TWEAK_LEN_def TWEAK_LEN_NEW_def)
qed

text \<open>A tweak of 4 bytes with the first NIST sample key: the object is built, and a
  message of 18 digits is refused by both directions.\<close>

theorem tweak_length_checked_on_use_witness:
  "length (hexDecode ''D8E7920A'') \<noteq> 7 \<and> length (hexDecode ''D8E7920A'') \<noteq> 8
   \<and> length (hexDecode sampleKey) \<in> {16, 24, 32} \<and> (2::int) \<le> 10 \<and> (10::int) \<le> 36
   \<and> FF3Cipher_constructor idCipher sampleKey ''D8E7920A'' 10
       = Inr (sampleCtx 10 6 56 [0xD8, 0xE7, 0x92, 0x0A])
   \<and> encrypt (sampleCtx 10 6 56 [0xD8, 0xE7, 0x92, 0x0A]) ''890121234567890000''
       = Inl InvalidTweakLength
   \<and> decrypt (sampleCtx 10 6 56 [0xD8, 0xE7, 0x92, 0x0A]) ''890121234567890000''
       = Inl InvalidTweakLength"
proof -
  have t: "length (hexDecode ''D8E7920A'') \<noteq> 7" "length (hexDecode ''D8E7920A'') \<noteq> 8"
    by (simp_all add: hexDecode_tweak4)
  have c: "FF3Cipher_constructor idCipher sampleKey ''D8E7920A'' 10
       = Inr (sampleCtx 10 6 56 [0xD8, 0xE7, 0x92, 0x0A])"
    unfolding constructor_sample hexDecode_tweak4 by simp
  have k: "length (hexDecode sampleKey) \<in> {16, 24, 32}" by (simp add: hexDecode_sampleKey)
  have m: "\<not> (int (length ''890121234567890000'') < minLen (sampleCtx 10 6 56 [0xD8, 0xE7, 0x92, 0x0A])
              \<or> maxLen (sampleCtx 10 6 56 [0xD8, 0xE7, 0x92, 0x0A]) < int (length ''890121234567890000''))"
    by (simp add: sampleCtx_def)
  from tweak_length_checked_on_use [OF t, of idCipher sampleKey 10]
  have "encrypt (sampleCtx 10 6 56 [0xD8, 0xE7, 0x92, 0x0A]) ''890121234567890000''
          = Inl InvalidTweakLength
        \<and> decrypt (sampleCtx 10 6 56 [0xD8, 0xE7, 0x92, 0x0A]) ''890121234567890000''
          = Inl InvalidTweakLength"
    using c m by simp
  then show ?thesis using t c k by simp
qed

section \<open>Digits, numbers and bytes\<close>

lemma of_char_digitChar:
  "0 \<le> d \<Longrightarrow> d < 36 \<Longrightarrow> (of_char (digitChar d) :: int) = (if d < 10 then 48 + d else 87 + d)"
  by (simp add: digitChar_def)

lemma digitValue_digitChar: "0 \<le> d \<Longrightarrow> d < 36 \<Longrightarrow> digitValue (digitChar d) = Some d"
  by (simp add: digitValue_def of_char_digitChar Let_def)

lemma digitValue_range: "digitValue c = Some d \<Longrightarrow> 0 \<le> d \<and> d < 36"
  by (auto simp: digitValue_def Let_def split: if_splits)

lemma inAlphabet_code:
  "inAlphabet R c \<longleftrightarrow>
     (48 \<le> (of_char c :: int) \<and> (of_char c :: int) \<le> 57 \<and> of_char c - 48 < R)
   \<or> (97 \<le> (of_char c :: int) \<and> (of_char c :: int) \<le> 122 \<and> of_char c - 87 < R)"
proof -
  have e: "digitChar d = c \<longleftrightarrow> (of_char (digitChar d) :: int) = of_char c" for d
    by simp
  show ?thesis
    unfolding inAlphabet_def digitValue_def Let_def e
    by (auto simp: of_char_digitChar)
qed

lemma inAlphabet_digitChar: "0 \<le> d \<Longrightarrow> d < R \<Longrightarrow> R \<le> 36 \<Longrightarrow> inAlphabet R (digitChar d)"
  by (simp add: inAlphabet_def digitValue_digitChar)

lemma inAlphabet_value:
  "inAlphabet R c \<Longrightarrow> \<exists>d. digitValue c = Some d \<and> 0 \<le> d \<and> d < R \<and> c = digitChar d"
  by (auto simp: inAlphabet_def dest: digitValue_range split: option.splits)

lemma inAlphabet_isDigitOf: "inAlphabet R c \<Longrightarrow> isDigitOf R c"
  by (auto simp: inAlphabet_def isDigitOf_def split: option.splits)

lemma inAlphabet_not_special:
  "inAlphabet R c \<Longrightarrow> \<not> isWhiteSpace c \<and> c \<noteq> CHR ''-'' \<and> c \<noteq> CHR ''+''"
  by (auto simp: inAlphabet_code isWhiteSpace_def)

lemma inAlphabet_x: "inAlphabet 16 c \<Longrightarrow> c \<noteq> CHR ''x'' \<and> c \<noteq> CHR ''X''"
  by (auto simp: inAlphabet_code)

lemma inAlphabet_mono: "inAlphabet R c \<Longrightarrow> R \<le> R' \<Longrightarrow> inAlphabet R' c"
  by (auto simp: inAlphabet_code)

lemma digitsValue_foldl:
  "foldl (\<lambda>acc c. acc * R + (case digitValue c of None \<Rightarrow> 0 | Some d \<Rightarrow> d)) a s
     = a * R ^ length s + digitsValue R s"
proof (induction s arbitrary: a)
  case Nil
  show ?case by (simp add: digitsValue_def)
next
  case (Cons c s)
  have "foldl (\<lambda>acc c. acc * R + (case digitValue c of None \<Rightarrow> 0 | Some d \<Rightarrow> d)) a (c # s)
      = (a * R + (case digitValue c of None \<Rightarrow> 0 | Some d \<Rightarrow> d)) * R ^ length s + digitsValue R s"
    by (simp only: foldl_Cons Cons.IH)
  moreover have "digitsValue R (c # s)
      = (0 * R + (case digitValue c of None \<Rightarrow> 0 | Some d \<Rightarrow> d)) * R ^ length s + digitsValue R s"
    unfolding digitsValue_def [of R "c # s"] by (simp only: foldl_Cons Cons.IH)
  ultimately show ?case by (simp add: algebra_simps)
qed

lemma digitsValue_Nil [simp]: "digitsValue R [] = 0"
  by (simp add: digitsValue_def)

lemma digitsValue_Cons:
  "digitsValue R (c # s) = (case digitValue c of None \<Rightarrow> 0 | Some d \<Rightarrow> d) * R ^ length s + digitsValue R s"
  using digitsValue_foldl [of R "case digitValue c of None \<Rightarrow> 0 | Some d \<Rightarrow> d" s]
  by (simp add: digitsValue_def)

lemma digitsValue_append:
  "digitsValue R (s @ t) = digitsValue R s * R ^ length t + digitsValue R t"
  using digitsValue_foldl [of R "digitsValue R s" t]
  by (simp add: digitsValue_def)

lemma digitsValue_snoc:
  "digitsValue R (s @ [c]) = digitsValue R s * R + (case digitValue c of None \<Rightarrow> 0 | Some d \<Rightarrow> d)"
  by (simp add: digitsValue_def)

lemma digitsValue_zeros [simp]: "digitsValue R (replicate k CHR ''0'') = 0"
  by (induction k) (simp_all add: digitsValue_Cons digitValue_def)

lemma validDigits_simps [simp]:
  "validDigits R []"
  "validDigits R (c # s) \<longleftrightarrow> inAlphabet R c \<and> validDigits R s"
  "validDigits R (s @ t) \<longleftrightarrow> validDigits R s \<and> validDigits R t"
  "validDigits R (rev s) \<longleftrightarrow> validDigits R s"
  by (auto simp: validDigits_def)

lemma validDigits_take: "validDigits R s \<Longrightarrow> validDigits R (take k s)"
  and validDigits_drop: "validDigits R s \<Longrightarrow> validDigits R (drop k s)"
  by (auto simp: validDigits_def list_all_iff dest: in_set_takeD in_set_dropD)

lemma validDigits_zeros [simp]: "2 \<le> R \<Longrightarrow> validDigits R (replicate k CHR ''0'')"
  by (auto simp: validDigits_def list_all_iff inAlphabet_code)

lemma digitsValue_bounds:
  assumes "validDigits R s" and "1 \<le> R"
  shows "0 \<le> digitsValue R s \<and> digitsValue R s < R ^ length s"
  using assms(1)
proof (induction s rule: rev_induct)
  case Nil
  show ?case by simp
next
  case (snoc c s)
  then have v: "validDigits R s" and a: "inAlphabet R c" by simp_all
  from inAlphabet_value [OF a] obtain d where d: "digitValue c = Some d" "0 \<le> d" "d < R" by blast
  from snoc.IH [OF v] have lo: "0 \<le> digitsValue R s" and hi: "digitsValue R s + 1 \<le> R ^ length s"
    by simp_all
  have "digitsValue R (s @ [c]) = digitsValue R s * R + d" by (simp add: digitsValue_snoc d)
  moreover have "0 \<le> digitsValue R s * R + d" using lo d assms(2) by simp
  moreover have "digitsValue R s * R + d < R ^ length (s @ [c])"
  proof -
    have "(digitsValue R s + 1) * R \<le> R ^ length s * R"
      using hi assms(2) by (intro mult_right_mono) simp_all
    then show ?thesis using d by (simp add: algebra_simps)
  qed
  ultimately show ?case by simp
qed

declare natToDigits.simps [simp del]

lemma natToDigits_small: "0 \<le> n \<Longrightarrow> n < R \<Longrightarrow> natToDigits R n = [digitChar n]"
  by (subst natToDigits.simps) simp

lemma natToDigits_step:
  "2 \<le> R \<Longrightarrow> R \<le> n \<Longrightarrow> natToDigits R n = natToDigits R (n div R) @ [digitChar (n mod R)]"
  by (subst natToDigits.simps) simp

lemma natToDigits_mult:
  assumes "2 \<le> R" and "0 < v" and "0 \<le> d" and "d < R"
  shows "natToDigits R (v * R + d) = natToDigits R v @ [digitChar d]"
proof -
  have "R \<le> v * R + d" using assms by (smt (verit) mult_le_cancel_right1)
  moreover have "(v * R + d) div R = v" using assms by simp
  moreover have "(v * R + d) mod R = d" using assms by simp
  ultimately show ?thesis using natToDigits_step [OF assms(1), of "v * R + d"] by simp
qed

lemma natToDigits_props:
  assumes R: "2 \<le> R" "R \<le> 36"
  shows "0 \<le> n \<Longrightarrow> validDigits R (natToDigits R n) \<and> digitsValue R (natToDigits R n) = n
           \<and> natToDigits R n \<noteq> []"
proof (induction "nat n" arbitrary: n rule: less_induct)
  case less
  show ?case
  proof (cases "n < R")
    case True
    then have "n < 36" using R by simp
    with True less.prems R show ?thesis
      by (simp add: natToDigits_small inAlphabet_digitChar digitsValue_Cons digitValue_digitChar)
  next
    case False
    then have n: "R \<le> n" by simp
    have q: "0 \<le> n div R" "n div R < n"
      using n R by (simp_all add: pos_imp_zdiv_nonneg_iff int_div_less_self)
    then have "nat (n div R) < nat n" by simp
    from less.hyps [OF this q(1)]
    have ih: "validDigits R (natToDigits R (n div R))"
         "digitsValue R (natToDigits R (n div R)) = n div R" by simp_all
    have m0: "0 \<le> n mod R" "n mod R < R" using R by simp_all
    then have m: "0 \<le> n mod R" "n mod R < R" "n mod R < 36" using R by linarith+
    show ?thesis
      unfolding natToDigits_step [OF R(1) n]
      using ih m R
      by (simp add: digitsValue_snoc inAlphabet_digitChar digitValue_digitChar)
  qed
qed

lemma natToDigits_length:
  assumes R: "2 \<le> R"
  shows "0 \<le> n \<Longrightarrow> n < R ^ m \<Longrightarrow> 1 \<le> m \<Longrightarrow> length (natToDigits R n) \<le> m"
proof (induction "nat n" arbitrary: n m rule: less_induct)
  case less
  show ?case
  proof (cases "n < R")
    case True
    with less.prems show ?thesis by (simp add: natToDigits_small)
  next
    case False
    then have n: "R \<le> n" by simp
    have q: "0 \<le> n div R" "n div R < n"
      using n R by (simp_all add: pos_imp_zdiv_nonneg_iff int_div_less_self)
    then have l: "nat (n div R) < nat n" by simp
    have m2: "2 \<le> m"
    proof (rule ccontr)
      assume "\<not> 2 \<le> m"
      with less.prems(3) have "m = 1" by simp
      with less.prems(2) n show False by simp
    qed
    then obtain m' where m': "m = Suc m'" "1 \<le> m'" by (cases m) auto
    have "n div R * R = n - n mod R" by (simp add: minus_mod_eq_div_mult)
    moreover have "0 \<le> n mod R" using R by simp
    ultimately have "n div R * R \<le> n" by linarith
    also have "n < R ^ m' * R" using less.prems(2) unfolding m'(1) by (simp add: mult.commute)
    finally have "n div R < R ^ m'" using R by simp
    from less.hyps [OF l q(1) this m'(2)]
    show ?thesis unfolding natToDigits_step [OF R n] m'(1) by simp
  qed
qed

lemma natToDigits_hd:
  assumes R: "2 \<le> R" "R \<le> 36"
  shows "0 < n \<Longrightarrow> hd (natToDigits R n) \<noteq> CHR ''0''"
proof (induction "nat n" arbitrary: n rule: less_induct)
  case less
  show ?case
  proof (cases "n < R")
    case True
    have "(of_char (digitChar n) :: int) \<noteq> of_char CHR ''0''"
      using True less.prems R by (subst of_char_digitChar) auto
    then have "digitChar n \<noteq> CHR ''0''" by (simp only: of_char_eq_iff not_False_eq_True)
    with True less.prems show ?thesis by (simp add: natToDigits_small)
  next
    case False
    then have n: "R \<le> n" by simp
    have q: "0 < n div R" "n div R < n"
      using n R by (simp_all add: pos_imp_zdiv_pos_iff int_div_less_self)
    then have l: "nat (n div R) < nat n" by simp
    have ne: "natToDigits R (n div R) \<noteq> []"
      using natToDigits_props [OF R, of "n div R"] q by simp
    from less.hyps [OF l q(1)] ne
    show ?thesis unfolding natToDigits_step [OF R(1) n] by simp
  qed
qed

lemma digitChar_0: "digitChar 0 = CHR ''0''"
  by code_simp

lemma natToDigits_zero: "2 \<le> R \<Longrightarrow> natToDigits R 0 = ''0''"
  by (simp add: natToDigits_small digitChar_0)

lemma digits_canonical:
  assumes R: "2 \<le> R" "R \<le> 36"
  shows "validDigits R s \<Longrightarrow> s \<noteq> [] \<Longrightarrow>
     s = replicate (length s - length (natToDigits R (digitsValue R s))) CHR ''0''
           @ natToDigits R (digitsValue R s)
     \<and> length (natToDigits R (digitsValue R s)) \<le> length s"
proof (induction s rule: rev_induct)
  case Nil
  then show ?case by simp
next
  case (snoc c s)
  then have v: "validDigits R s" and a: "inAlphabet R c" by simp_all
  from inAlphabet_value [OF a] obtain d
    where d: "digitValue c = Some d" "0 \<le> d" "d < R" "c = digitChar d" by blast
  let ?v = "digitsValue R s"
  have val: "digitsValue R (s @ [c]) = ?v * R + d" by (simp add: digitsValue_snoc d(1))
  have v0: "0 \<le> ?v" using digitsValue_bounds [OF v] R by simp
  show ?case
  proof (cases "?v = 0")
    case True
    then have e: "natToDigits R (digitsValue R (s @ [c])) = [c]"
      unfolding val using d by (simp add: natToDigits_small)
    have "s = replicate (length s) CHR ''0''"
    proof (cases "s = []")
      case True then show ?thesis by simp
    next
      case False
      from snoc.IH [OF v False] True R
      have a: "s = replicate (length s - 1) CHR ''0'' @ [CHR ''0'']" and "1 \<le> length s"
        by (simp_all add: natToDigits_zero)
      then have b: "Suc (length s - 1) = length s" by simp
      have c: "replicate k CHR ''0'' @ [CHR ''0''] = replicate (Suc k) CHR ''0''" for k
        by (simp add: replicate_append_same)
      show ?thesis using a b c by metis
    qed
    then have "s @ [c] = replicate (length s) CHR ''0'' @ [c]" by simp
    then show ?thesis unfolding e by simp
  next
    case False
    then have vpos: "0 < ?v" using v0 by simp
    then have sne: "s \<noteq> []" by auto
    have e: "natToDigits R (digitsValue R (s @ [c])) = natToDigits R ?v @ [c]"
      unfolding val using natToDigits_mult [OF R(1) vpos d(2) d(3)] d(4) by simp
    from snoc.IH [OF v sne]
    have ih: "s = replicate (length s - length (natToDigits R ?v)) CHR ''0'' @ natToDigits R ?v"
      and le: "length (natToDigits R ?v) \<le> length s" by simp_all
    have "s @ [c] = replicate (length s - length (natToDigits R ?v)) CHR ''0'' @ natToDigits R ?v @ [c]"
      using ih by (metis append.assoc)
    then show ?thesis unfolding e using le by simp
  qed
qed

lemma ToInt32_small: "2 \<le> R \<Longrightarrow> R \<le> 36 \<Longrightarrow> ToInt32 R = R"
  by (simp add: ToInt32_def)

lemma parseInt_valid:
  assumes R: "2 \<le> R" "R \<le> 36" and v: "validDigits R s" and ne: "s \<noteq> []"
  shows "parseInt s R = Some (digitsValue R s)"
proof -
  from ne obtain c s' where s: "s = c # s'" by (cases s) auto
  have c: "inAlphabet R c" using v s by simp
  note sp = inAlphabet_not_special [OF c]
  have d: "dropWhile isWhiteSpace s = s" using sp s by simp
  have all: "\<forall>x \<in> set s. isDigitOf R x"
    using v by (auto simp: validDigits_def list_all_iff intro: inAlphabet_isDigitOf)
  then have t: "takeWhile (isDigitOf R) s = s" by (simp add: takeWhile_eq_all_conv)
  have p: "\<not> (R = 16 \<and> (take 2 s = ''0x'' \<or> take 2 s = ''0X''))"
  proof
    assume a: "R = 16 \<and> (take 2 s = ''0x'' \<or> take 2 s = ''0X'')"
    then have "CHR ''x'' \<in> set (take 2 s) \<or> CHR ''X'' \<in> set (take 2 s)" by auto
    then have "CHR ''x'' \<in> set s \<or> CHR ''X'' \<in> set s" by (auto dest: in_set_takeD)
    then have "inAlphabet 16 CHR ''x'' \<or> inAlphabet 16 CHR ''X''"
      using v a by (auto simp: validDigits_def list_all_iff)
    then show False using inAlphabet_x by blast
  qed
  have hd: "hd s = c" using s by simp
  have pre: "((R = 0 \<or> R = 16) \<and> (take 2 s = ''0x'' \<or> take 2 s = ''0X'')) = False"
    using p R by auto
  have rng: "(R \<noteq> 0 \<and> (R < 2 \<or> R > 36)) = False" using R by auto
  show ?thesis
    unfolding parseInt_def d Let_def ToInt32_small [OF R] pre rng
    using sp ne R p by (auto simp: hd t)
qed

lemma reduceParts_append:
  "reduceParts R f (xs @ ys) r =
     (case reduceParts R f xs r of Inl e \<Rightarrow> Inl e | Inr r' \<Rightarrow> reduceParts R f ys r')"
  by (induction xs arbitrary: r) (auto split: option.splits)

declare pushParts.simps [simp del]

lemma pushParts_reduce:
  assumes R: "2 \<le> R" "R \<le> 36"
  shows "validDigits R val \<Longrightarrow> i \<le> length val \<Longrightarrow> (length val - i) mod 10 = 0 \<Longrightarrow>
         reduceParts R (R ^ 10) parts 0 = Inr (digitsValue R (take i val)) \<Longrightarrow>
         reduceParts R (R ^ 10) (pushParts val i parts) 0 = Inr (digitsValue R val)"
proof (induction val i parts rule: pushParts.induct)
  case (1 val i parts)
  show ?case
  proof (cases "i < length val")
    case False
    with 1(3) have "i = length val" by simp
    then show ?thesis using 1(5) by (subst pushParts.simps) simp
  next
    case True
    let ?chunk = "take 10 (drop i val)"
    have ge: "10 \<le> length val - i" using True 1(4) by (simp add: mod_eq_0_iff_dvd dvd_imp_le)
    then have len: "length ?chunk = 10" by simp
    have cv: "validDigits R ?chunk" by (intro validDigits_take validDigits_drop 1(2))
    have cne: "?chunk \<noteq> []" using len by auto
    have tk: "take (i + 10) val = take i val @ ?chunk" by (simp add: take_add)
    have r: "reduceParts R (R ^ 10) (parts @ [?chunk]) 0 = Inr (digitsValue R (take (i + 10) val))"
      unfolding reduceParts_append 1(5) tk
      using ge by (simp add: parseInt_valid [OF R cv cne] digitsValue_append min_def)
    have "reduceParts R (R ^ 10) (pushParts val (i + 10) (parts @ [?chunk])) 0
            = Inr (digitsValue R val)"
    proof (rule 1(1) [OF True 1(2) _ _ r])
      show "i + 10 \<le> length val" using ge by simp
      have "(length val - i) mod 10 = ((length val - (i + 10)) + 10) mod 10" using ge by simp
      then show "(length val - (i + 10)) mod 10 = 0" using 1(4) by simp
    qed
    then show ?thesis using True by (subst pushParts.simps) simp
  qed
qed

lemma convertToBigInt_valid:
  assumes R: "2 \<le> R" "R \<le> 36" and v: "validDigits R s" and ne: "s \<noteq> []"
  shows "convertToBigInt s R = Inr (digitsValue R s)"
proof -
  let ?i = "if length s mod 10 = 0 then 10 else length s mod 10"
  have pos: "0 < length s" using ne by simp
  have i1: "?i \<le> length s"
  proof (cases "length s mod 10 = 0")
    case True
    then have "10 dvd length s" by (simp add: mod_eq_0_iff_dvd)
    then have "10 \<le> length s" using pos by (simp add: dvd_imp_le)
    with True show ?thesis by simp
  next
    case False then show ?thesis by simp
  qed
  have i2: "(length s - ?i) mod 10 = 0"
  proof (cases "length s mod 10 = 0")
    case True
    then have "10 dvd length s" by (simp add: mod_eq_0_iff_dvd)
    then have "10 dvd (length s - 10)" by (simp add: dvd_diff_nat)
    with True show ?thesis by (simp add: mod_eq_0_iff_dvd)
  next
    case False
    have "length s - length s mod 10 = length s div 10 * 10" by (simp add: minus_mod_eq_div_mult)
    with False show ?thesis by simp
  qed
  have i0: "0 < ?i" by simp
  have tv: "validDigits R (take ?i s)" using v by (rule validDigits_take)
  have tne: "take ?i s \<noteq> []" using ne i0 by (cases s) auto
  have st: "reduceParts R (R ^ 10) [take ?i s] 0 = Inr (digitsValue R (take ?i s))"
    by (simp add: parseInt_valid [OF R tv tne])
  from pushParts_reduce [OF R v i1 i2 st]
  show ?thesis by (simp add: convertToBigInt_def Let_def)
qed

text \<open>The alphabet of a radix is the list of its first symbols.\<close>

lemma alphabet_nth: "\<forall>k \<in> set [0 ..< 36]. alphabet ! k = digitChar (int k)"
  by code_simp

lemma inAlphabet_alphabet:
  assumes R: "0 \<le> R" "R \<le> 36"
  shows "inAlphabet R c \<longleftrightarrow> c \<in> set (take (nat R) alphabet)"
proof -
  have len: "length alphabet = 36" by (simp add: alphabet_def)
  have n: "nat R \<le> length alphabet" using R len by simp
  have s: "set (take (nat R) alphabet) = (!) alphabet ` {0 ..< nat R}"
    using nth_image [OF n] by simp
  show ?thesis
  proof
    assume "inAlphabet R c"
    from inAlphabet_value [OF this] obtain d where d: "0 \<le> d" "d < R" "c = digitChar d" by blast
    then have "nat d < 36" using R by simp
    then have "alphabet ! nat d = digitChar (int (nat d))" using alphabet_nth by simp
    then have "c = alphabet ! nat d" using d by simp
    moreover have "nat d < nat R" using d by simp
    ultimately show "c \<in> set (take (nat R) alphabet)" unfolding s by (auto intro!: image_eqI)
  next
    assume "c \<in> set (take (nat R) alphabet)"
    then obtain k where k: "k < nat R" "c = alphabet ! k" unfolding s by auto
    then have "k < 36" using R by simp
    then have "alphabet ! k = digitChar (int k)" using alphabet_nth by simp
    then show "inAlphabet R c"
      using k R by (simp add: inAlphabet_digitChar)
  qed
qed

text \<open>\<^verbatim>\<open>parseInt\<close> returns a double. Every string that \<^verbatim>\<open>convertToBigInt\<close> hands to it
  has at most ten characters, and on such a string the value is below \<open>2 ^ 53\<close>, where
  the doubles are exact: the integer of the model is the number the runtime returns.\<close>

lemma parseInt_exact_range: "(36::int) ^ 10 < 2 ^ 53"
  by simp

lemma digitsValue_bounds_parse:
  assumes "list_all (isDigitOf R) s" and "1 \<le> R"
  shows "0 \<le> digitsValue R s \<and> digitsValue R s < R ^ length s"
  using assms(1)
proof (induction s rule: rev_induct)
  case Nil
  show ?case by simp
next
  case (snoc c s)
  then have v: "list_all (isDigitOf R) s" and a: "isDigitOf R c" by simp_all
  from a obtain d where d: "digitValue c = Some d" "d < R"
    by (auto simp: isDigitOf_def split: option.splits)
  have d0: "0 \<le> d" using digitValue_range [OF d(1)] by simp
  from snoc.IH [OF v] have lo: "0 \<le> digitsValue R s" and hi: "digitsValue R s + 1 \<le> R ^ length s"
    by simp_all
  have "digitsValue R (s @ [c]) = digitsValue R s * R + d" by (simp add: digitsValue_snoc d(1))
  moreover have "0 \<le> digitsValue R s * R + d" using lo d0 assms(2) by simp
  moreover have "digitsValue R s * R + d < R ^ length (s @ [c])"
  proof -
    have "(digitsValue R s + 1) * R \<le> R ^ length s * R"
      using hi assms(2) by (intro mult_right_mono) simp_all
    then show ?thesis using d(2) by (simp add: algebra_simps)
  qed
  ultimately show ?case by simp
qed

lemma parseInt_chunk_exact:
  assumes p: "parseInt s R = Some p" and l: "length s \<le> 10"
  shows "\<bar>p\<bar> < 2 ^ 53"
proof -
  define s1 where "s1 = dropWhile isWhiteSpace s"
  define neg where "neg = (s1 \<noteq> [] \<and> hd s1 = CHR ''-'')"
  define s2 where "s2 = (if s1 \<noteq> [] \<and> (hd s1 = CHR ''-'' \<or> hd s1 = CHR ''+'') then tl s1 else s1)"
  define R0 where "R0 = ToInt32 R"
  define pre where "pre = ((R0 = 0 \<or> R0 = 16) \<and> (take 2 s2 = ''0x'' \<or> take 2 s2 = ''0X''))"
  define R' where "R' = (if pre then 16 else if R0 = 0 then 10 else R0)"
  define s3 where "s3 = (if pre then drop 2 s2 else s2)"
  define z where "z = takeWhile (isDigitOf R') s3"
  have e: "parseInt s R =
      (if R0 \<noteq> 0 \<and> (R0 < 2 \<or> R0 > 36) then None
       else if z = [] then None
       else Some ((if neg then - 1 else 1) * digitsValue R' z))"
    unfolding parseInt_def Let_def z_def s3_def R'_def pre_def R0_def s2_def neg_def s1_def
    by simp
  have ok: "\<not> (R0 \<noteq> 0 \<and> (R0 < 2 \<or> R0 > 36))"
    using p unfolding e by (simp split: if_splits)
  have pv: "p = (if neg then - 1 else 1) * digitsValue R' z"
    using p unfolding e by (simp split: if_splits)
  have a: "2 \<le> R'" "R' \<le> 36" using ok unfolding R'_def by auto
  have b: "list_all (isDigitOf R') z"
    unfolding z_def by (simp add: list_all_iff) (meson set_takeWhileD)
  have l1: "length s1 \<le> length s" unfolding s1_def by (rule length_dropWhile_le)
  have l2: "length s2 \<le> length s1" unfolding s2_def by simp
  have l3: "length s3 \<le> length s2" unfolding s3_def by simp
  have "length z \<le> length s3" unfolding z_def by (rule length_takeWhile_le)
  then have c: "length z \<le> 10" using l1 l2 l3 l by linarith
  have d: "0 \<le> digitsValue R' z" "digitsValue R' z < R' ^ length z"
    using digitsValue_bounds_parse [OF b] a by simp_all
  have "\<bar>p\<bar> = digitsValue R' z" unfolding pv using d(1) by simp
  also note d(2)
  also have "R' ^ length z \<le> R' ^ 10" using c a by (intro power_increasing) simp_all
  also have "\<dots> \<le> 36 ^ 10" using a by (intro power_mono) simp_all
  also have "\<dots> < 2 ^ 53" by simp
  finally show ?thesis .
qed

lemma pushParts_chunks:
  "list_all (\<lambda>p. length p \<le> 10) parts \<Longrightarrow>
   list_all (\<lambda>p. length p \<le> 10) (pushParts val i parts)"
proof (induction val i parts rule: pushParts.induct)
  case (1 val i parts)
  show ?case
  proof (cases "i < length val")
    case True
    have "list_all (\<lambda>p. length p \<le> 10) (parts @ [take 10 (drop i val)])"
      using 1(2) by simp
    from 1(1) [OF True this] True show ?thesis by (subst pushParts.simps) simp
  next
    case False
    then show ?thesis using 1(2) by (subst pushParts.simps) simp
  qed
qed

lemma convertToBigInt_chunks:
  "list_all (\<lambda>p. length p \<le> 10)
     (pushParts val (if length val mod 10 = 0 then 10 else length val mod 10)
        [take (if length val mod 10 = 0 then 10 else length val mod 10) val])"
  by (rule pushParts_chunks) simp

lemma bytesValue_foldl:
  "foldl (\<lambda>acc b. acc * 256 + uint b) a bs = a * 256 ^ length bs + bytesValue bs"
proof (induction bs arbitrary: a)
  case Nil
  show ?case by (simp add: bytesValue_def)
next
  case (Cons b bs)
  have "foldl (\<lambda>acc b. acc * 256 + uint b) a (b # bs)
      = (a * 256 + uint b) * 256 ^ length bs + bytesValue bs"
    by (simp only: foldl_Cons Cons.IH)
  moreover have "bytesValue (b # bs) = (0 * 256 + uint b) * 256 ^ length bs + bytesValue bs"
    unfolding bytesValue_def [of "b # bs"] by (simp only: foldl_Cons Cons.IH)
  ultimately show ?case by (simp add: algebra_simps)
qed

lemma bytesValue_Nil [simp]: "bytesValue [] = 0"
  by (simp add: bytesValue_def)

lemma bytesValue_Cons: "bytesValue (b # bs) = uint b * 256 ^ length bs + bytesValue bs"
  using bytesValue_foldl [of "uint b" bs] by (simp add: bytesValue_def)

lemma bytesValue_append: "bytesValue (xs @ ys) = bytesValue xs * 256 ^ length ys + bytesValue ys"
  using bytesValue_foldl [of "bytesValue xs" ys] by (simp add: bytesValue_def)

lemma bytesValue_zeros [simp]: "bytesValue (replicate k 0) = 0"
  by (induction k) (simp_all add: bytesValue_Cons)

lemma bytesValue_bounds: "0 \<le> bytesValue bs \<and> bytesValue bs < 256 ^ length bs"
proof (induction bs rule: rev_induct)
  case Nil
  show ?case by simp
next
  case (snoc b bs)
  have u: "0 \<le> uint b" "uint b < 256" using uint_lt2p [of b] by simp_all
  have s1: "bytesValue [b] = uint b" by (simp add: bytesValue_Cons)
  from snoc have "bytesValue bs + 1 \<le> 256 ^ length bs" by simp
  then have "(bytesValue bs + 1) * 256 \<le> 256 ^ length bs * 256" by simp
  then show ?case using snoc u by (simp add: bytesValue_append s1 algebra_simps)
qed

lemma hexPair_byte:
  assumes "inAlphabet 16 a" and "inAlphabet 16 b"
  shows "parseInt [a, b] 16 = Some (digitsValue 16 [a, b])"
    and "0 \<le> digitsValue 16 [a, b]" and "digitsValue 16 [a, b] < 256"
    and "uint (word_of_int (digitsValue 16 [a, b]) :: byte) = digitsValue 16 [a, b]"
proof -
  have v: "validDigits 16 [a, b]" using assms by simp
  show "parseInt [a, b] 16 = Some (digitsValue 16 [a, b])"
    by (rule parseInt_valid [OF _ _ v]) simp_all
  from digitsValue_bounds [OF v]
  show b: "0 \<le> digitsValue 16 [a, b]" "digitsValue 16 [a, b] < 256" by simp_all
  then show "uint (word_of_int (digitsValue 16 [a, b]) :: byte) = digitsValue 16 [a, b]"
    by (simp add: uint_word_of_int take_bit_eq_mod)
qed

lemma hexBytes_value:
  "validDigits 16 h \<Longrightarrow> even (length h) \<Longrightarrow>
     bytesValue (hexBytes h) = digitsValue 16 h \<and> 2 * length (hexBytes h) = length h"
proof (induction h rule: hexBytes.induct)
  case (1 a b rest)
  then have ab: "inAlphabet 16 a" "inAlphabet 16 b" and r: "validDigits 16 rest" "even (length rest)"
    by simp_all
  note p = hexPair_byte [OF ab]
  from 1(1) [OF r] have ih: "bytesValue (hexBytes rest) = digitsValue 16 rest"
    and l: "2 * length (hexBytes rest) = length rest" by simp_all
  have pw: "(16::int) ^ length rest = 256 ^ length (hexBytes rest)"
  proof -
    have "(16::int) ^ (2 * length (hexBytes rest)) = (16 ^ 2) ^ length (hexBytes rest)"
      by (simp only: power_mult)
    then show ?thesis unfolding l by simp
  qed
  have "digitsValue 16 (a # b # rest) = digitsValue 16 ([a, b] @ rest)" by simp
  also have "\<dots> = digitsValue 16 [a, b] * 16 ^ length rest + digitsValue 16 rest"
    by (rule digitsValue_append)
  finally have d: "digitsValue 16 (a # b # rest)
      = digitsValue 16 [a, b] * 256 ^ length (hexBytes rest) + digitsValue 16 rest"
    unfolding pw .
  show ?case
    unfolding d using l by (simp add: p(1) p(4) bytesValue_Cons ih)
qed simp_all

lemma digitValue_0: "digitValue CHR ''0'' = Some 0"
  by (simp add: digitValue_def)

lemma bigToUint8Array_nonneg:
  assumes n: "0 \<le> n"
  shows "bytesValue (bigToUint8Array n) = n"
    and "2 * length (bigToUint8Array n)
           = (if odd (length (natToDigits 16 n)) then Suc (length (natToDigits 16 n))
              else length (natToDigits 16 n))"
    and "bigToUint8Array n \<noteq> []"
proof -
  let ?hex = "natToDigits 16 n"
  let ?hex' = "if odd (length ?hex) then CHR ''0'' # ?hex else ?hex"
  have p: "validDigits 16 ?hex" "digitsValue 16 ?hex = n" "?hex \<noteq> []"
    using natToDigits_props [of 16 n] n by simp_all
  have z: "inAlphabet 16 CHR ''0''" by (simp add: inAlphabet_code)
  have v': "validDigits 16 ?hex'" using p(1) z by simp
  have e': "even (length ?hex')" by simp
  have d': "digitsValue 16 ?hex' = n"
    using p(2) by (simp add: digitsValue_Cons digitValue_0)
  have b: "bigToUint8Array n = hexBytes ?hex'"
    using n by (simp add: bigToUint8Array_def Let_def)
  from hexBytes_value [OF v' e']
  have h: "bytesValue (hexBytes ?hex') = digitsValue 16 ?hex'"
    "2 * length (hexBytes ?hex') = length ?hex'" by simp_all
  show "bytesValue (bigToUint8Array n) = n" unfolding b h(1) d' ..
  show l: "2 * length (bigToUint8Array n)
           = (if odd (length ?hex) then Suc (length ?hex) else length ?hex)"
    unfolding b h(2) by simp
  show "bigToUint8Array n \<noteq> []"
  proof
    assume "bigToUint8Array n = []"
    with l have "length ?hex = 0" by (simp split: if_splits)
    with p(3) show False by simp
  qed
qed

lemma bigToUint8Array_length:
  assumes n: "0 \<le> n" and b: "n < 2 ^ (8 * k)" and k: "1 \<le> k"
  shows "length (bigToUint8Array n) \<le> k"
proof -
  have "(2::int) ^ (8 * k) = 16 ^ (2 * k)"
  proof -
    have "(2::int) ^ (4 * (2 * k)) = (2 ^ 4) ^ (2 * k)" by (simp only: power_mult)
    then show ?thesis by simp
  qed
  then have "n < 16 ^ (2 * k)" using b by simp
  from natToDigits_length [OF _ n this] k
  have "length (natToDigits 16 n) \<le> 2 * k" by simp
  with bigToUint8Array_nonneg(2) [OF n] show ?thesis
    by (simp split: if_splits)
qed

lemma bigToUint8Array_minimal:
  assumes n: "0 < n"
  shows "hd (bigToUint8Array n) \<noteq> 0"
proof -
  let ?hex = "natToDigits 16 n"
  have p: "validDigits 16 ?hex" "?hex \<noteq> []"
    using natToDigits_props [of 16 n] n by simp_all
  have h: "hd ?hex \<noteq> CHR ''0''" using natToDigits_hd [of 16 n] n by simp
  from p(2) obtain a r where ar: "?hex = a # r" by (cases ?hex) auto
  have a: "inAlphabet 16 a" and a0: "a \<noteq> CHR ''0''" using p(1) h ar by simp_all
  from inAlphabet_value [OF a] obtain d where d: "digitValue a = Some d" "0 \<le> d" "d < 16" "a = digitChar d"
    by blast
  have dpos: "0 < d"
  proof (rule ccontr)
    assume "\<not> 0 < d"
    with d(2) have "d = 0" by simp
    with d(4) a0 show False by (simp add: digitChar_0)
  qed
  have b: "bigToUint8Array n = hexBytes (if odd (length ?hex) then CHR ''0'' # ?hex else ?hex)"
    using n by (simp add: bigToUint8Array_def Let_def)
  have z: "inAlphabet 16 CHR ''0''" by (simp add: inAlphabet_code)
  show ?thesis
  proof (cases "odd (length ?hex)")
    case True
    have v: "digitsValue 16 [CHR ''0'', a] = d"
      by (simp add: digitsValue_Cons d(1) digitValue_0)
    have "hd (bigToUint8Array n) = word_of_int (digitsValue 16 [CHR ''0'', a])"
      unfolding b using True ar by (simp add: hexPair_byte(1) [OF z a])
    moreover have "uint (word_of_int (digitsValue 16 [CHR ''0'', a]) :: byte) = d"
      using hexPair_byte(4) [OF z a] v by simp
    ultimately show ?thesis using dpos by auto
  next
    case False
    then have "r \<noteq> []" using ar by auto
    then obtain b' r' where r: "r = b' # r'" by (cases r) auto
    have b': "inAlphabet 16 b'" using p(1) ar r by simp
    from inAlphabet_value [OF b'] obtain e where e: "digitValue b' = Some e" "0 \<le> e" by blast
    have v: "digitsValue 16 [a, b'] = d * 16 + e"
      by (simp add: digitsValue_Cons d(1) e(1))
    have "hd (bigToUint8Array n) = word_of_int (digitsValue 16 [a, b'])"
      unfolding b using False ar r by (simp add: hexPair_byte(1) [OF a b'])
    moreover have "uint (word_of_int (digitsValue 16 [a, b']) :: byte) = d * 16 + e"
      using hexPair_byte(4) [OF a b'] v by simp
    ultimately show ?thesis using dpos e(2) by auto
  qed
qed

lemma bigToUint8Array_zero: "bigToUint8Array 0 = [0]"
  by code_simp

section \<open>The round input block\<close>

lemma num_bounds:
  "validDigits R s \<Longrightarrow> 1 \<le> R \<Longrightarrow> 0 \<le> num R s \<and> num R s < R ^ length s"
  using digitsValue_bounds [of R "rev s"] by (simp add: num_def reverseString_def)

lemma convertToBigInt_rev:
  assumes "2 \<le> R" "R \<le> 36" "validDigits R s" "s \<noteq> []"
  shows "convertToBigInt (reverseString s) R = Inr (num R s)"
  unfolding num_def reverseString_def
  using assms by (intro convertToBigInt_valid) simp_all

text \<open>
  C5. For every round index \<open>i\<close>, radix in 2..36, tweak half \<open>W\<close> of 4 bytes and
  half \<open>B\<close> that is a non-empty digit string whose reversal has a value below \<open>2 ^ 96\<close>
  (as every half of an admissible message has), \<^verbatim>\<open>calculateP\<close> returns the 16 bytes
  \<open>W[0], W[1], W[2], W[3] XOR i\<close> followed by twelve bytes that hold, right-aligned and
  padded with zero bytes on the left, the big-endian bytes \<open>bs\<close> of the value of the
  reversed \<open>B\<close>, where \<open>bs\<close> is the shortest non-empty such encoding (no leading zero
  byte unless it is the single byte 0).
\<close>

theorem calculateP_layout:
  assumes R: "2 \<le> R" "R \<le> 36" and B: "validDigits R B" "B \<noteq> []"
      and lt: "digitsValue R (reverseString B) < 2 ^ 96"
      and W: "length W = 4"
      and bs: "bs = bigToUint8Array (digitsValue R (reverseString B))"
  shows "calculateP i R W B
           = Inr ([W ! 0, W ! 1, W ! 2, W ! 3 XOR word_of_nat i] @ replicate (12 - length bs) 0 @ bs)
       \<and> bs \<noteq> [] \<and> length bs \<le> 12
       \<and> bytesValue bs = digitsValue R (reverseString B)
       \<and> (length bs > 1 \<longrightarrow> hd bs \<noteq> 0)"
proof -
  let ?n = "digitsValue R (reverseString B)"
  have n: "?n = num R B" by (simp add: num_def)
  have n0: "0 \<le> ?n" using num_bounds [OF B(1)] R unfolding n by simp
  have c: "convertToBigInt (reverseString B) R = Inr ?n"
    unfolding n by (rule convertToBigInt_rev [OF R B])
  note p = bigToUint8Array_nonneg [OF n0]
  have l: "length bs \<le> 12"
    unfolding bs using bigToUint8Array_length [OF n0, of 12] lt by simp
  have m: "length bs > 1 \<longrightarrow> hd bs \<noteq> 0"
  proof (cases "?n = 0")
    case True
    then show ?thesis unfolding bs by (simp add: bigToUint8Array_zero)
  next
    case False
    then have "0 < ?n" using n0 by simp
    then show ?thesis unfolding bs by (simp add: bigToUint8Array_minimal)
  qed
  have tk: "take (16 - k) (a # b # c # d # replicate 12 (0::byte))
              = a # b # c # d # replicate (12 - k) 0" if "k \<le> 12" for k a b c d
  proof -
    have "16 - k = Suc (Suc (Suc (Suc (12 - k))))" using that by simp
    then show ?thesis by simp
  qed
  have "calculateP i R W B
           = Inr ([W ! 0, W ! 1, W ! 2, W ! 3 XOR word_of_nat i] @ replicate (12 - length bs) 0 @ bs)"
    using l W unfolding calculateP_def c Let_def bs
    by (simp add: BLOCK_SIZE_def byteAt_def tk)
  then show ?thesis using p l m unfolding bs by simp
qed

text \<open>The repository's own test of \<^verbatim>\<open>calculateP\<close>: round 0 of the first NIST sample.\<close>

theorem calculateP_layout_witness:
  "(2::int) \<le> 10 \<and> (10::int) \<le> 36 \<and> validDigits 10 ''567890000'' \<and> ''567890000'' \<noteq> []
   \<and> digitsValue 10 (reverseString ''567890000'') < 2 ^ 96
   \<and> length [0xFA, 0x33, 0x0A, 0x73 :: byte] = 4
   \<and> bigToUint8Array (digitsValue 10 (reverseString ''567890000'')) = [1, 129, 205]
   \<and> calculateP 0 10 [0xFA, 0x33, 0x0A, 0x73] ''567890000''
       = Inr [250, 51, 10, 115, 0, 0, 0, 0, 0, 0, 0, 0, 0, 1, 129, 205]"
proof -
  have v: "validDigits 10 ''567890000''" by code_simp
  have n: "digitsValue 10 (reverseString ''567890000'') = 98765" by code_simp
  have lt: "digitsValue 10 (reverseString ''567890000'') < 2 ^ 96" unfolding n by simp
  have b: "bigToUint8Array 98765 = [1, 129, 205]" by code_simp
  have bs: "[1, 129, 205] = bigToUint8Array (digitsValue 10 (reverseString ''567890000''))"
    unfolding n b ..
  from calculateP_layout [OF _ _ v _ lt _ bs, of "[0xFA, 0x33, 0x0A, 0x73]" 0]
  have "calculateP 0 10 [0xFA, 0x33, 0x0A, 0x73] ''567890000''
       = Inr [250, 51, 10, 115, 0, 0, 0, 0, 0, 0, 0, 0, 0, 1, 129, 205]"
    by (simp add: numeral_eq_Suc)
  then show ?thesis using v lt bs by simp
qed

section \<open>The rounds\<close>

lemma take_zeros: "take k ''00000000'' = replicate (min 8 k) CHR ''0''"
proof -
  have "''00000000'' = replicate 8 CHR ''0''" by (simp add: numeral_eq_Suc)
  then show ?thesis by (simp add: min.commute)
qed

lemma renderC_eq:
  assumes "2 \<le> R" "R \<le> 36" "0 \<le> c"
  shows "renderC c R m = Inr (rendered R m c)"
  using assms
  by (simp add: renderC_def toString_def reverseString_def rendered_def take_zeros)

lemma renderC_Inl: "renderC c R m = Inl e \<Longrightarrow> R < 2 \<or> 36 < R"
  by (auto simp: renderC_def toString_def Let_def split: if_splits)

lemma rendered_props:
  assumes R: "2 \<le> R" "R \<le> 36" and c: "0 \<le> c"
  shows "validDigits R (rendered R m c)" and "rendered R m c \<noteq> []" and "num R (rendered R m c) = c"
proof -
  note p = natToDigits_props [OF R c]
  show "validDigits R (rendered R m c)" using p R by (simp add: rendered_def)
  show "rendered R m c \<noteq> []" using p by (simp add: rendered_def)
  show "num R (rendered R m c) = c"
    using p by (simp add: num_def reverseString_def rendered_def digitsValue_append)
qed

lemma rendered_length:
  "length (rendered R m c) = length (natToDigits R c) + min 8 (m - length (natToDigits R c))"
  by (simp add: rendered_def)

lemma rendered_length_le:
  assumes "2 \<le> R" "0 \<le> c" "c < R ^ m" "1 \<le> m"
  shows "length (rendered R m c) \<le> m"
  using natToDigits_length [OF assms] by (simp add: rendered_length)

lemma rendered_length_eq:
  assumes "2 \<le> R" "R \<le> 36" "0 \<le> c" "c < R ^ m" "1 \<le> m" "m \<le> 9"
  shows "length (rendered R m c) = m"
proof -
  have "length (natToDigits R c) \<le> m" using natToDigits_length [OF assms(1,3,4,5)] .
  moreover have "1 \<le> length (natToDigits R c)"
    using natToDigits_props [OF assms(1,2,3)] by (cases "natToDigits R c") simp_all
  ultimately show ?thesis using assms(6) by (simp add: rendered_length)
qed

lemma rendered_canonical:
  assumes R: "2 \<le> R" "R \<le> 36" and s: "validDigits R s" "s \<noteq> []"
      and k: "length s \<le> length (natToDigits R (num R s)) + 8"
  shows "rendered R (length s) (num R s) = s"
proof -
  let ?d = "natToDigits R (num R s)"
  have v: "validDigits R (rev s)" "rev s \<noteq> []" using s by simp_all
  from digits_canonical [OF R v]
  have e: "rev s = replicate (length s - length ?d) CHR ''0'' @ ?d" and l: "length ?d \<le> length s"
    by (simp_all add: num_def reverseString_def)
  have "s = rev (rev s)" by simp
  also have "\<dots> = rev ?d @ replicate (length s - length ?d) CHR ''0''"
    by (subst e) simp
  finally have "s = rev ?d @ replicate (length s - length ?d) CHR ''0''" .
  moreover have "min 8 (length s - length ?d) = length s - length ?d" using k by simp
  ultimately show ?thesis unfolding rendered_def by simp
qed

lemma roundY_num:
  assumes R: "2 \<le> radix ctx" "radix ctx \<le> 36"
      and X: "validDigits (radix ctx) X" "X \<noteq> []"
  shows "roundY ctx i W X =
     (let P = [byteAt W 0, byteAt W 1, byteAt W 2, byteAt W 3 XOR word_of_nat i] @ replicate 12 0;
          bBytes = bigToUint8Array (num (radix ctx) X)
      in if length bBytes > 16 then Inl RangeError
         else BigInt_hex (rev (aesCipher ctx (rev (take (16 - length bBytes) P @ bBytes)))))"
  unfolding roundY_def calculateP_def convertToBigInt_rev [OF R X]
  by (simp add: Let_def BLOCK_SIZE_def)

lemma roundY_cong:
  assumes R: "2 \<le> radix ctx" "radix ctx \<le> 36"
      and X: "validDigits (radix ctx) X" "X \<noteq> []"
      and Y: "validDigits (radix ctx) Y" "Y \<noteq> []"
      and e: "num (radix ctx) X = num (radix ctx) Y"
  shows "roundY ctx i W X = roundY ctx i W Y"
  unfolding roundY_num [OF R X] roundY_num [OF R Y] e ..

lemma roundY_nonneg: "roundY ctx i W X = Inr y \<Longrightarrow> 0 \<le> y"
  using bytesValue_bounds
  by (auto simp: roundY_def BigInt_hex_def split: sum.splits if_splits)

lemma encryptRound_eq:
  assumes R: "2 \<le> radix ctx" "radix ctx \<le> 36"
      and A: "validDigits (radix ctx) A" "A \<noteq> []"
  shows "encryptRound ctx u v i (A, B) =
     (case roundY ctx i (roundW ctx i) B of
        Inl e \<Rightarrow> Inl e
      | Inr y \<Rightarrow> Inr (B, rendered (radix ctx) (roundM u v i)
                           ((num (radix ctx) A + y) mod radix ctx ^ roundM u v i)))"
proof (cases "roundY ctx i (roundW ctx i) B")
  case (Inl e)
  then show ?thesis
    by (cases "i mod 2 = 0")
       (simp_all add: encryptRound_def Let_def roundW_def HALF_TWEAK_LEN_def TWEAK_LEN_def)
next
  case (Inr y)
  let ?R = "radix ctx"
  let ?m = "roundM u v i"
  have pos: "0 < ?R ^ ?m" using R by simp
  have md: "mod_FF3 (num ?R A + y) (?R ^ ?m) = Inr ((num ?R A + y) mod ?R ^ ?m)"
    by (rule mod_FF3_eq [OF pos])
  have c0: "0 \<le> (num ?R A + y) mod ?R ^ ?m" using pos by simp
  have rc: "renderC ((num ?R A + y) mod ?R ^ ?m) ?R ?m
              = Inr (rendered ?R ?m ((num ?R A + y) mod ?R ^ ?m))"
    by (rule renderC_eq [OF R c0])
  have md': "mod_FF3 (num ?R A + y) (if i mod 2 = 0 then ?R ^ u else ?R ^ v)
               = Inr ((num ?R A + y) mod ?R ^ ?m)"
    using md by (cases "i mod 2 = 0") (simp_all add: roundM_def)
  have rc': "renderC ((num ?R A + y) mod ?R ^ ?m) ?R (if i mod 2 = 0 then u else v)
              = Inr (rendered ?R ?m ((num ?R A + y) mod ?R ^ ?m))"
    using rc by (cases "i mod 2 = 0") (simp_all add: roundM_def)
  have ry: "roundY ctx i (if i mod 2 = 0 then take (TWEAK_LEN - HALF_TWEAK_LEN)
                  (drop HALF_TWEAK_LEN (tweakBytes ctx)) else take HALF_TWEAK_LEN (tweakBytes ctx)) B = Inr y"
    using Inr by (cases "i mod 2 = 0") (simp_all add: roundW_def HALF_TWEAK_LEN_def TWEAK_LEN_def)
  show ?thesis
    unfolding encryptRound_def Let_def fst_conv snd_conv ry convertToBigInt_rev [OF R A] Inr
    by (simp add: md' rc')
qed

lemma decryptRound_eq:
  assumes R: "2 \<le> radix ctx" "radix ctx \<le> 36"
      and B: "validDigits (radix ctx) B" "B \<noteq> []"
  shows "decryptRound ctx u v i (A, B) =
     (case roundY ctx i (roundW ctx i) A of
        Inl e \<Rightarrow> Inl e
      | Inr y \<Rightarrow> Inr (rendered (radix ctx) (roundM u v i)
                           ((num (radix ctx) B - y) mod radix ctx ^ roundM u v i), A))"
proof (cases "roundY ctx i (roundW ctx i) A")
  case (Inl e)
  then show ?thesis
    by (cases "i mod 2 = 0")
       (simp_all add: decryptRound_def Let_def roundW_def HALF_TWEAK_LEN_def TWEAK_LEN_def)
next
  case (Inr y)
  let ?R = "radix ctx"
  let ?m = "roundM u v i"
  have pos: "0 < ?R ^ ?m" using R by simp
  have md: "mod_FF3 (num ?R B - y) (?R ^ ?m) = Inr ((num ?R B - y) mod ?R ^ ?m)"
    by (rule mod_FF3_eq [OF pos])
  have c0: "0 \<le> (num ?R B - y) mod ?R ^ ?m" using pos by simp
  have rc: "renderC ((num ?R B - y) mod ?R ^ ?m) ?R ?m
              = Inr (rendered ?R ?m ((num ?R B - y) mod ?R ^ ?m))"
    by (rule renderC_eq [OF R c0])
  have md': "mod_FF3 (num ?R B - y) (if i mod 2 = 0 then ?R ^ u else ?R ^ v)
               = Inr ((num ?R B - y) mod ?R ^ ?m)"
    using md by (cases "i mod 2 = 0") (simp_all add: roundM_def)
  have rc': "renderC ((num ?R B - y) mod ?R ^ ?m) ?R (if i mod 2 = 0 then u else v)
              = Inr (rendered ?R ?m ((num ?R B - y) mod ?R ^ ?m))"
    using rc by (cases "i mod 2 = 0") (simp_all add: roundM_def)
  have ry: "roundY ctx i (if i mod 2 = 0 then take (TWEAK_LEN - HALF_TWEAK_LEN)
                  (drop HALF_TWEAK_LEN (tweakBytes ctx)) else take HALF_TWEAK_LEN (tweakBytes ctx)) A = Inr y"
    using Inr by (cases "i mod 2 = 0") (simp_all add: roundW_def HALF_TWEAK_LEN_def TWEAK_LEN_def)
  show ?thesis
    unfolding decryptRound_def Let_def fst_conv snd_conv ry convertToBigInt_rev [OF R B] Inr
    by (simp add: md' rc')
qed

lemma runRounds_append:
  "runRounds step (is @ js) st =
     (case runRounds step is st of Inl e \<Rightarrow> Inl e | Inr st' \<Rightarrow> runRounds step js st')"
  by (induction "is" arbitrary: st) (auto split: sum.splits)


lemma mod_range:
  fixes R :: int
  assumes "2 \<le> R"
  shows "0 \<le> x mod R ^ m" and "x mod R ^ m < R ^ m"
  using assms by simp_all

lemma rendered_round:
  assumes R: "2 \<le> R" "R \<le> 36" and uv: "1 \<le> v" "v \<le> u"
  shows "validDigits R (rendered R (roundM u v i) (x mod R ^ roundM u v i))"
    and "rendered R (roundM u v i) (x mod R ^ roundM u v i) \<noteq> []"
    and "length (rendered R (roundM u v i) (x mod R ^ roundM u v i)) \<le> roundM u v i"
    and "length (rendered R (roundM u v i) (x mod R ^ roundM u v i)) \<le> u"
    and "num R (rendered R (roundM u v i) (x mod R ^ roundM u v i)) = x mod R ^ roundM u v i"
proof -
  let ?m = "roundM u v i"
  note m = mod_range [OF R(1), of x ?m]
  have m1: "1 \<le> ?m" and mu: "?m \<le> u" using uv by (simp_all add: roundM_def)
  show "validDigits R (rendered R ?m (x mod R ^ ?m))" by (rule rendered_props(1) [OF R m(1)])
  show "rendered R ?m (x mod R ^ ?m) \<noteq> []" by (rule rendered_props(2) [OF R m(1)])
  show l: "length (rendered R ?m (x mod R ^ ?m)) \<le> ?m"
    by (rule rendered_length_le [OF R(1) m m1])
  then show "length (rendered R ?m (x mod R ^ ?m)) \<le> u" using mu by simp
  show "num R (rendered R ?m (x mod R ^ ?m)) = x mod R ^ ?m" by (rule rendered_props(3) [OF R m(1)])
qed

lemma encryptRound_halvesOk:
  assumes R: "2 \<le> radix ctx" "radix ctx \<le> 36" and uv: "1 \<le> v" "v \<le> u"
      and ok: "halvesOk (radix ctx) u st" and s: "encryptRound ctx u v i st = Inr st'"
  shows "halvesOk (radix ctx) u st'"
proof -
  obtain A B where st: "st = (A, B)" by (cases st)
  have A: "validDigits (radix ctx) A" "A \<noteq> []" using ok st by (simp_all add: halvesOk_def okState_def)
  from s obtain y where "st' = (B, rendered (radix ctx) (roundM u v i)
                           ((num (radix ctx) A + y) mod radix ctx ^ roundM u v i))"
    unfolding st encryptRound_eq [OF R A] by (auto split: sum.splits)
  then show ?thesis
    using ok st rendered_round [OF R uv, of i "num (radix ctx) A + y"]
    by (simp add: halvesOk_def okState_def)
qed




text \<open>The split of an admissible message.\<close>

lemma split_halvesOk:
  assumes x: "validDigits R x" and n: "2 \<le> length x"
      and u: "u = (length x + 1) div 2" and v: "v = length x - u"
  shows "halvesOk R u (take u x, drop u x)" and "1 \<le> v" and "v \<le> u" and "u + v = length x"
proof -
  show v1: "1 \<le> v" and vu: "v \<le> u" and uv: "u + v = length x" using n u v by simp_all
  have "take u x \<noteq> []" using n u by (cases x) auto
  moreover have "drop u x \<noteq> []" using v1 v by auto
  ultimately show "halvesOk R u (take u x, drop u x)"
    using x v vu by (simp add: halvesOk_def okState_def validDigits_take validDigits_drop)
qed

lemma half_value_bound:
  assumes c: "FF3Cipher_constructor cc key tweak rdx = Inr ctx"
      and n: "int (length x) \<le> maxLen ctx" and u: "u = (length x + 1) div 2"
      and X: "validDigits (radix ctx) X" "length X \<le> u"
  shows "0 \<le> num (radix ctx) X" and "num (radix ctx) X < 2 ^ 96"
proof -
  note k = constructor_Inr [OF c]
  let ?f = "\<lfloor>ln (2 ^ 96) / ln (real_of_int rdx)\<rfloor>"
  have R: "2 \<le> radix ctx" using k by simp
  have b: "0 \<le> num (radix ctx) X" "num (radix ctx) X < radix ctx ^ length X"
    using num_bounds [OF X(1)] R by simp_all
  show "0 \<le> num (radix ctx) X" by (rule b(1))
  have "int (length x) \<le> 2 * ?f" using n k(6) by simp
  then have "int u \<le> ?f" unfolding u by linarith
  then have "u \<le> nat ?f" by simp
  with X(2) have "length X \<le> nat ?f" by simp
  then have "radix ctx ^ length X \<le> radix ctx ^ nat ?f"
    using R by (intro power_increasing) simp_all
  also have "\<dots> \<le> 2 ^ 96" using floor_ln_quot_pow(2) [OF k(2)] k(4) by simp
  finally show "num (radix ctx) X < 2 ^ 96" using b(2) by simp
qed

section \<open>The cipher handle in the rounds\<close>

text \<open>A round of \<^verbatim>\<open>encrypt\<close> and a round of \<^verbatim>\<open>decrypt\<close>, written out down to the call
  of the cipher handle: the block \<open>P\<close> of the round, reversed, goes through the handle,
  and the result, reversed and read as a number \<open>y\<close>, is added to (in \<^verbatim>\<open>decrypt\<close>:
  subtracted from) the number of the other half.\<close>

lemma encryptRound_oracle:
  assumes R: "2 \<le> radix ctx" "radix ctx \<le> 36"
  shows "encryptRound ctx u v i (A, B) =
     (case calculateP i (radix ctx) (roundW ctx i) B of
        Inl e \<Rightarrow> Inl e
      | Inr P \<Rightarrow>
         (case BigInt_hex (rev (aesCipher ctx (rev P))) of
            Inl e \<Rightarrow> Inl e
          | Inr y \<Rightarrow>
             (case convertToBigInt (reverseString A) (radix ctx) of
                Inl e \<Rightarrow> Inl NotInRadix
              | Inr a \<Rightarrow> Inr (B, rendered (radix ctx) (roundM u v i)
                                  ((a + y) mod radix ctx ^ roundM u v i)))))"
proof -
  let ?R = "radix ctx"
  let ?m = "roundM u v i"
  have pos: "0 < ?R ^ ?m" using R by simp
  have md: "mod_FF3 n (?R ^ ?m) = Inr (n mod ?R ^ ?m)" for n
    by (rule mod_FF3_eq [OF pos])
  have rc: "renderC (n mod ?R ^ ?m) ?R ?m = Inr (rendered ?R ?m (n mod ?R ^ ?m))" for n
  proof -
    have "0 \<le> n mod ?R ^ ?m" using pos by simp
    from renderC_eq [OF R this] show ?thesis .
  qed
  have e: "(if i mod 2 = 0 then ?R ^ u else ?R ^ v) = ?R ^ ?m" "(if i mod 2 = 0 then u else v) = ?m"
    by (simp_all add: roundM_def)
  have w: "(if i mod 2 = 0 then take (TWEAK_LEN - HALF_TWEAK_LEN)
                  (drop HALF_TWEAK_LEN (tweakBytes ctx)) else take HALF_TWEAK_LEN (tweakBytes ctx))
           = roundW ctx i"
    by (simp add: roundW_def HALF_TWEAK_LEN_def TWEAK_LEN_def)
  show ?thesis
    unfolding encryptRound_def roundY_def Let_def fst_conv snd_conv w e
    by (simp add: md rc split: sum.splits)
qed

lemma decryptRound_oracle:
  assumes R: "2 \<le> radix ctx" "radix ctx \<le> 36"
  shows "decryptRound ctx u v i (A, B) =
     (case calculateP i (radix ctx) (roundW ctx i) A of
        Inl e \<Rightarrow> Inl e
      | Inr P \<Rightarrow>
         (case BigInt_hex (rev (aesCipher ctx (rev P))) of
            Inl e \<Rightarrow> Inl e
          | Inr y \<Rightarrow>
             (case convertToBigInt (reverseString B) (radix ctx) of
                Inl e \<Rightarrow> Inl NotInRadix
              | Inr b \<Rightarrow> Inr (rendered (radix ctx) (roundM u v i)
                                  ((b - y) mod radix ctx ^ roundM u v i), A))))"
proof -
  let ?R = "radix ctx"
  let ?m = "roundM u v i"
  have pos: "0 < ?R ^ ?m" using R by simp
  have md: "mod_FF3 n (?R ^ ?m) = Inr (n mod ?R ^ ?m)" for n
    by (rule mod_FF3_eq [OF pos])
  have rc: "renderC (n mod ?R ^ ?m) ?R ?m = Inr (rendered ?R ?m (n mod ?R ^ ?m))" for n
  proof -
    have "0 \<le> n mod ?R ^ ?m" using pos by simp
    from renderC_eq [OF R this] show ?thesis .
  qed
  have e: "(if i mod 2 = 0 then ?R ^ u else ?R ^ v) = ?R ^ ?m" "(if i mod 2 = 0 then u else v) = ?m"
    by (simp_all add: roundM_def)
  have w: "(if i mod 2 = 0 then take (TWEAK_LEN - HALF_TWEAK_LEN)
                  (drop HALF_TWEAK_LEN (tweakBytes ctx)) else take HALF_TWEAK_LEN (tweakBytes ctx))
           = roundW ctx i"
    by (simp add: roundW_def HALF_TWEAK_LEN_def TWEAK_LEN_def)
  show ?thesis
    unfolding decryptRound_def roundY_def Let_def fst_conv snd_conv w e
    by (simp add: md rc split: sum.splits)
qed

lemma encrypt_rounds:
  assumes n: "minLen ctx \<le> int (length x)" "int (length x) \<le> maxLen ctx"
      and t: "length (tweakBytes ctx) = 8 \<or> length (tweakBytes ctx) = 7"
      and u: "u = (length x + 1) div 2" and v: "v = length x - u"
  shows "encrypt ctx x =
           (case runRounds (encryptRound ctx u v) [0 ..< NUM_ROUNDS] (take u x, drop u x) of
              Inl e \<Rightarrow> Inl e
            | Inr st \<Rightarrow> Inr (fst st @ snd st))"
  using n t unfolding u v encrypt_def Let_def
  by (auto simp: TWEAK_LEN_def TWEAK_LEN_NEW_def split: sum.splits)

lemma decrypt_rounds:
  assumes n: "minLen ctx \<le> int (length x)" "int (length x) \<le> maxLen ctx"
      and t: "length (tweakBytes ctx) = 8 \<or> length (tweakBytes ctx) = 7"
      and u: "u = (length x + 1) div 2" and v: "v = length x - u"
  shows "decrypt ctx x =
           (case runRounds (decryptRound ctx u v) (rev [0 ..< NUM_ROUNDS]) (take u x, drop u x) of
              Inl e \<Rightarrow> Inl e
            | Inr st \<Rightarrow> Inr (fst st @ snd st))"
  using n t unfolding u v decrypt_def Let_def
  by (auto simp: TWEAK_LEN_def TWEAK_LEN_NEW_def split: sum.splits)

lemma constructor_xor:
  "FF3Cipher_constructor xorCipher sampleKey ''D8E7920AFA330A73'' 10 = Inr xorCtx"
proof -
  have "length (hexDecode sampleKey) \<in> {16, 24, 32}" by (simp add: hexDecode_sampleKey)
  from constructor_succeeds [OF this, of 10 xorCipher "''D8E7920AFA330A73''"]
  show ?thesis
    unfolding minLen_10 maxLen_10 hexDecode_tweak8 hexDecode_sampleKey xorCtx_def sampleTweak_def
    by simp
qed

text \<open>
  C10. The cipher handle \<open>K\<close> of a constructed object is the primitive keyed with the
  byte-reversal of the hex-decoded key, and construction depends on the primitive
  through this one keyed permutation only. Both directions use this same handle, in the
  forward direction: every round of \<^verbatim>\<open>encrypt\<close> and every round of \<^verbatim>\<open>decrypt\<close>
  obtains its value \<open>y\<close> as the number of the reversed result of \<open>K\<close> on the reversed
  block \<open>P\<close>, \<^verbatim>\<open>encrypt\<close> adding \<open>y\<close> to the number of the half \<open>A\<close> and \<^verbatim>\<open>decrypt\<close>
  subtracting it from the number of the half \<open>B\<close>; and \<^verbatim>\<open>encrypt\<close> and \<^verbatim>\<open>decrypt\<close>
  of a message within the length bounds, the tweak being of 7 or 8 bytes, are the eight
  such rounds, run upwards and downwards, on the split of the message.
\<close>

theorem reversed_key_oracle:
  assumes c: "FF3Cipher_constructor cc key tweak rdx = Inr ctx"
      and a: "algo = (if length (hexDecode key) = 16 then ''aes-128-ecb''
                   else if length (hexDecode key) = 24 then ''aes-192-ecb'' else ''aes-256-ecb'')"
      and K: "K = cc algo (rev (hexDecode key))"
  shows "aesCipher ctx = K
       \<and> (\<forall>cc'. cc' algo (rev (hexDecode key)) = K
             \<longrightarrow> FF3Cipher_constructor cc' key tweak rdx = Inr ctx)
       \<and> (\<forall>i W X. roundY ctx i W X =
             (case calculateP i rdx W X of
                Inl e \<Rightarrow> Inl e
              | Inr P \<Rightarrow> BigInt_hex (rev (K (rev P)))))
       \<and> (\<forall>u v i A B. encryptRound ctx u v i (A, B) =
             (case calculateP i rdx (roundW ctx i) B of
                Inl e \<Rightarrow> Inl e
              | Inr P \<Rightarrow>
                 (case BigInt_hex (rev (K (rev P))) of
                    Inl e \<Rightarrow> Inl e
                  | Inr y \<Rightarrow>
                     (case convertToBigInt (reverseString A) rdx of
                        Inl e \<Rightarrow> Inl NotInRadix
                      | Inr a \<Rightarrow> Inr (B, rendered rdx (roundM u v i)
                                          ((a + y) mod rdx ^ roundM u v i))))))
       \<and> (\<forall>u v i A B. decryptRound ctx u v i (A, B) =
             (case calculateP i rdx (roundW ctx i) A of
                Inl e \<Rightarrow> Inl e
              | Inr P \<Rightarrow>
                 (case BigInt_hex (rev (K (rev P))) of
                    Inl e \<Rightarrow> Inl e
                  | Inr y \<Rightarrow>
                     (case convertToBigInt (reverseString B) rdx of
                        Inl e \<Rightarrow> Inl NotInRadix
                      | Inr b \<Rightarrow> Inr (rendered rdx (roundM u v i)
                                          ((b - y) mod rdx ^ roundM u v i), A)))))
       \<and> (\<forall>(x::string) u v. minLen ctx \<le> int (length x) \<and> int (length x) \<le> maxLen ctx
                  \<and> (length (hexDecode tweak) = 7 \<or> length (hexDecode tweak) = 8)
                  \<and> u = (length x + 1) div 2 \<and> v = length x - u
             \<longrightarrow> encrypt ctx x =
                   (case runRounds (encryptRound ctx u v) [0 ..< NUM_ROUNDS] (take u x, drop u x) of
                      Inl e \<Rightarrow> Inl e
                    | Inr st \<Rightarrow> Inr (fst st @ snd st))
               \<and> decrypt ctx x =
                   (case runRounds (decryptRound ctx u v) (rev [0 ..< NUM_ROUNDS]) (take u x, drop u x) of
                      Inl e \<Rightarrow> Inl e
                    | Inr st \<Rightarrow> Inr (fst st @ snd st)))"
proof (intro conjI allI impI)
  note k = constructor_Inr [OF c]
  have R: "2 \<le> radix ctx" "radix ctx \<le> 36" using k by simp_all
  show h: "aesCipher ctx = K" using k(10) a K by simp
  show "roundY ctx i W X =
             (case calculateP i rdx W X of
                Inl e \<Rightarrow> Inl e
              | Inr P \<Rightarrow> BigInt_hex (rev (K (rev P))))" for i W X
    by (simp add: roundY_def h k(4) split: sum.splits)
  show "encryptRound ctx u v i (A, B) =
             (case calculateP i rdx (roundW ctx i) B of
                Inl e \<Rightarrow> Inl e
              | Inr P \<Rightarrow>
                 (case BigInt_hex (rev (K (rev P))) of
                    Inl e \<Rightarrow> Inl e
                  | Inr y \<Rightarrow>
                     (case convertToBigInt (reverseString A) rdx of
                        Inl e \<Rightarrow> Inl NotInRadix
                      | Inr a \<Rightarrow> Inr (B, rendered rdx (roundM u v i)
                                          ((a + y) mod rdx ^ roundM u v i)))))" for u v i A B
    using encryptRound_oracle [OF R, of u v i A B] unfolding h k(4) .
  show "decryptRound ctx u v i (A, B) =
             (case calculateP i rdx (roundW ctx i) A of
                Inl e \<Rightarrow> Inl e
              | Inr P \<Rightarrow>
                 (case BigInt_hex (rev (K (rev P))) of
                    Inl e \<Rightarrow> Inl e
                  | Inr y \<Rightarrow>
                     (case convertToBigInt (reverseString B) rdx of
                        Inl e \<Rightarrow> Inl NotInRadix
                      | Inr b \<Rightarrow> Inr (rendered rdx (roundM u v i)
                                          ((b - y) mod rdx ^ roundM u v i), A))))" for u v i A B
    using decryptRound_oracle [OF R, of u v i A B] unfolding h k(4) .
  {
    fix x :: string and u v
    assume p: "minLen ctx \<le> int (length x) \<and> int (length x) \<le> maxLen ctx
                  \<and> (length (hexDecode tweak) = 7 \<or> length (hexDecode tweak) = 8)
                  \<and> u = (length x + 1) div 2 \<and> v = length x - u"
    then have tw: "length (tweakBytes ctx) = 8 \<or> length (tweakBytes ctx) = 7"
      using k(9) by (auto simp: calculateTweak64_FF3_1_def)
    from p have n: "minLen ctx \<le> int (length x)" "int (length x) \<le> maxLen ctx"
      and u: "u = (length x + 1) div 2" and v: "v = length x - u" by simp_all
    show "encrypt ctx x =
                   (case runRounds (encryptRound ctx u v) [0 ..< NUM_ROUNDS] (take u x, drop u x) of
                      Inl e \<Rightarrow> Inl e
                    | Inr st \<Rightarrow> Inr (fst st @ snd st))"
      by (rule encrypt_rounds [OF n tw u v])
    show "decrypt ctx x =
                   (case runRounds (decryptRound ctx u v) (rev [0 ..< NUM_ROUNDS]) (take u x, drop u x) of
                      Inl e \<Rightarrow> Inl e
                    | Inr st \<Rightarrow> Inr (fst st @ snd st))"
      by (rule decrypt_rounds [OF n tw u v])
  }
  fix cc'
  assume e: "cc' algo (rev (hexDecode key)) = K"
  have "FF3Cipher_constructor cc' key tweak rdx = FF3Cipher_constructor cc key tweak rdx"
    unfolding constructor_succeeds [OF k(1) k(2) k(3)] using e a K by simp
  then show "FF3Cipher_constructor cc' key tweak rdx = Inr ctx" using c by simp
qed

text \<open>The first NIST sample key and tweak with the primitive that adds the key to the
  block: the handle adds the reversed key (first byte \<open>0x94\<close>), not the key as given
  (first byte \<open>0xEF\<close>); a second primitive that agrees with it on the reversed key only
  builds the same object; round 0 in both directions, and a message of 18 digits
  encrypted and decrypted.\<close>

theorem reversed_key_oracle_witness:
  "FF3Cipher_constructor xorCipher sampleKey ''D8E7920AFA330A73'' 10 = Inr xorCtx
   \<and> aesCipher xorCtx = xorCipher ''aes-128-ecb'' (rev (hexDecode sampleKey))
   \<and> aesCipher xorCtx [0] = [0x94]
   \<and> xorCipher ''aes-128-ecb'' (hexDecode sampleKey) [0] = [0xEF]
   \<and> otherCipher ''aes-128-ecb'' (rev (hexDecode sampleKey))
       = xorCipher ''aes-128-ecb'' (rev (hexDecode sampleKey))
   \<and> FF3Cipher_constructor otherCipher sampleKey ''D8E7920AFA330A73'' 10 = Inr xorCtx
   \<and> calculateP 0 10 [0xFA, 0x33, 0x0A, 0x73] ''567890000''
       = Inr [250, 51, 10, 115, 0, 0, 0, 0, 0, 0, 0, 0, 0, 1, 129, 205]
   \<and> roundY xorCtx 0 [0xFA, 0x33, 0x0A, 0x73] ''567890000''
       = Inr 28497022213727880918826600999453322073
   \<and> encryptRound xorCtx 9 9 0 (''890121234'', ''567890000'') = Inr (''567890000'', ''171344588'')
   \<and> decryptRound xorCtx 9 9 0 (''567890000'', ''171344588'') = Inr (''890121234'', ''567890000'')
   \<and> minLen xorCtx \<le> int (length ''890121234567890000'')
   \<and> int (length ''890121234567890000'') \<le> maxLen xorCtx
   \<and> encrypt xorCtx ''890121234567890000'' = Inr ''723667786007154932''
   \<and> decrypt xorCtx ''723667786007154932'' = Inr ''890121234567890000''"
proof -
  let ?K = "xorCipher ''aes-128-ecb'' (rev (hexDecode sampleKey))"
  let ?x = "''890121234567890000''"
  let ?y = "''723667786007154932''"
  note c = constructor_xor
  have l: "length (hexDecode sampleKey) = 16" by (simp add: hexDecode_sampleKey)
  have a: "''aes-128-ecb'' = (if length (hexDecode sampleKey) = 16 then ''aes-128-ecb''
                   else if length (hexDecode sampleKey) = 24 then ''aes-192-ecb''
                   else ''aes-256-ecb'')"
    using l by simp
  have o: "otherCipher ''aes-128-ecb'' (rev (hexDecode sampleKey)) = ?K"
    by (rule ext) (simp add: otherCipher_def hexDecode_sampleKey)
  note t = reversed_key_oracle [OF c a refl]
  note t1 = t [THEN conjunct1]
   and t2 = t [THEN conjunct2, THEN conjunct1, rule_format, of otherCipher, OF o]
   and t3 = t [THEN conjunct2, THEN conjunct2, THEN conjunct1, rule_format,
               of 0 "[0xFA, 0x33, 0x0A, 0x73]" "''567890000''"]
   and t4 = t [THEN conjunct2, THEN conjunct2, THEN conjunct2, THEN conjunct1, rule_format,
               of 9 9 0 "''890121234''" "''567890000''"]
   and t5 = t [THEN conjunct2, THEN conjunct2, THEN conjunct2, THEN conjunct2, THEN conjunct1,
               rule_format, of 9 9 0 "''567890000''" "''171344588''"]
   and t6 = t [THEN conjunct2, THEN conjunct2, THEN conjunct2, THEN conjunct2, THEN conjunct2,
               rule_format]
  have b0: "aesCipher xorCtx [0] = [0x94]" by code_simp
  have b1: "xorCipher ''aes-128-ecb'' (hexDecode sampleKey) [0] = [0xEF]" by code_simp
  have p: "calculateP 0 10 [0xFA, 0x33, 0x0A, 0x73] ''567890000''
       = Inr [250, 51, 10, 115, 0, 0, 0, 0, 0, 0, 0, 0, 0, 1, 129, 205]" by code_simp
  have y: "roundY xorCtx 0 [0xFA, 0x33, 0x0A, 0x73] ''567890000''
       = Inr 28497022213727880918826600999453322073"
    unfolding t3 by code_simp
  have e: "encryptRound xorCtx 9 9 0 (''890121234'', ''567890000'') = Inr (''567890000'', ''171344588'')"
    unfolding t4 by code_simp
  have d: "decryptRound xorCtx 9 9 0 (''567890000'', ''171344588'') = Inr (''890121234'', ''567890000'')"
    unfolding t5 by code_simp
  have n: "minLen xorCtx \<le> int (length ?x)" "int (length ?x) \<le> maxLen xorCtx"
          "minLen xorCtx \<le> int (length ?y)" "int (length ?y) \<le> maxLen xorCtx"
    by (simp_all add: xorCtx_def)
  have tw: "length (hexDecode ''D8E7920AFA330A73'') = 7 \<or> length (hexDecode ''D8E7920AFA330A73'') = 8"
    unfolding hexDecode_tweak8 by simp
  have u: "9 = (length ?x + 1) div 2" "9 = length ?x - 9" "9 = (length ?y + 1) div 2" "9 = length ?y - 9"
    by simp_all
  have E: "encrypt xorCtx ?x = Inr ?y"
    unfolding t6 [of ?x 9 9, OF conjI [OF n(1) conjI [OF n(2) conjI [OF tw conjI [OF u(1) u(2)]]]],
                  THEN conjunct1]
    by code_simp
  have D: "decrypt xorCtx ?y = Inr ?x"
    unfolding t6 [of ?y 9 9, OF conjI [OF n(3) conjI [OF n(4) conjI [OF tw conjI [OF u(3) u(4)]]]],
                  THEN conjunct2]
    by code_simp
  show ?thesis
    by (intro conjI) (rule c t1 b0 b1 o t2 p y e d n(1) n(2) E D)+
qed

section \<open>The half handed to the round function fits the block\<close>





section \<open>The padding of the rendered half\<close>

lemma encryptRound_shape:
  assumes R: "2 \<le> radix ctx" "radix ctx \<le> 36"
      and s: "encryptRound ctx u v i st = Inr st'"
  shows "\<exists>c. 0 \<le> c \<and> c < radix ctx ^ roundM u v i
           \<and> st' = (snd st, rendered (radix ctx) (roundM u v i) c)"
proof -
  let ?R = "radix ctx" and ?m = "roundM u v i"
  have pos: "0 < ?R ^ ?m" using R by simp
  have mm: "(if i mod 2 = 0 then ?R ^ u else ?R ^ v) = ?R ^ ?m"
       "(if i mod 2 = 0 then u else v) = ?m" by (simp_all add: roundM_def)
  from s obtain y c0 C where
      "renderC ((c0 + y) mod ?R ^ ?m) ?R ?m = Inr C" and st': "st' = (snd st, C)"
    unfolding encryptRound_def Let_def mm mod_FF3_eq [OF pos]
    by (auto split: sum.splits)
  moreover have c: "0 \<le> (c0 + y) mod ?R ^ ?m" "(c0 + y) mod ?R ^ ?m < ?R ^ ?m"
    using pos by simp_all
  ultimately have "C = rendered ?R ?m ((c0 + y) mod ?R ^ ?m)"
    using renderC_eq [OF R c(1), of ?m] by simp
  with st' c show ?thesis by blast
qed

lemma decryptRound_shape:
  assumes R: "2 \<le> radix ctx" "radix ctx \<le> 36"
      and s: "decryptRound ctx u v i st = Inr st'"
  shows "\<exists>c. 0 \<le> c \<and> c < radix ctx ^ roundM u v i
           \<and> st' = (rendered (radix ctx) (roundM u v i) c, fst st)"
proof -
  let ?R = "radix ctx" and ?m = "roundM u v i"
  have pos: "0 < ?R ^ ?m" using R by simp
  have mm: "(if i mod 2 = 0 then ?R ^ u else ?R ^ v) = ?R ^ ?m"
       "(if i mod 2 = 0 then u else v) = ?m" by (simp_all add: roundM_def)
  from s obtain y c0 C where
      "renderC ((c0 - y) mod ?R ^ ?m) ?R ?m = Inr C" and st': "st' = (C, fst st)"
    unfolding decryptRound_def Let_def mm mod_FF3_eq [OF pos]
    by (auto split: sum.splits)
  moreover have c: "0 \<le> (c0 - y) mod ?R ^ ?m" "(c0 - y) mod ?R ^ ?m < ?R ^ ?m"
    using pos by simp_all
  ultimately have "C = rendered ?R ?m ((c0 - y) mod ?R ^ ?m)"
    using renderC_eq [OF R c(1), of ?m] by simp
  with st' c show ?thesis by blast
qed

lemma upt8: "[0 ..< NUM_ROUNDS] = [0, 1, 2, 3, 4, 5] @ [6, 7]"
  and rev_upt8: "rev [0 ..< NUM_ROUNDS] = [7, 6, 5, 4, 3, 2] @ [1, 0]"
  by (simp_all add: NUM_ROUNDS_def upt_rec)

lemma runRounds_two:
  assumes "runRounds step (is @ [i, j]) st = Inr st'"
  shows "\<exists>s1 s2. runRounds step is st = Inr s1 \<and> step i s1 = Inr s2 \<and> step j s2 = Inr st'"
  using assms unfolding runRounds_append by (auto split: sum.splits)

lemma encrypt_Inr:
  assumes e: "encrypt ctx x = Inr z"
  shows "\<exists>A' B'. runRounds (encryptRound ctx ((length x + 1) div 2) (length x - (length x + 1) div 2))
            [0 ..< NUM_ROUNDS] (take ((length x + 1) div 2) x, drop ((length x + 1) div 2) x) = Inr (A', B')
          \<and> z = A' @ B'"
proof (cases "runRounds (encryptRound ctx ((length x + 1) div 2) (length x - (length x + 1) div 2))
            [0 ..< NUM_ROUNDS] (take ((length x + 1) div 2) x, drop ((length x + 1) div 2) x)")
  case (Inl err)
  then show ?thesis using e by (simp add: encrypt_def Let_def split: if_splits)
next
  case (Inr st)
  then show ?thesis using e by (cases st) (simp add: encrypt_def Let_def split: if_splits)
qed

lemma decrypt_Inr:
  assumes e: "decrypt ctx x = Inr z"
  shows "\<exists>A' B'. runRounds (decryptRound ctx ((length x + 1) div 2) (length x - (length x + 1) div 2))
            (rev [0 ..< NUM_ROUNDS]) (take ((length x + 1) div 2) x, drop ((length x + 1) div 2) x) = Inr (A', B')
          \<and> z = A' @ B'"
proof (cases "runRounds (decryptRound ctx ((length x + 1) div 2) (length x - (length x + 1) div 2))
            (rev [0 ..< NUM_ROUNDS]) (take ((length x + 1) div 2) x, drop ((length x + 1) div 2) x)")
  case (Inl err)
  then show ?thesis using e by (simp add: decrypt_def Let_def split: if_splits)
next
  case (Inr st)
  then show ?thesis using e by (cases st) (simp add: decrypt_def Let_def split: if_splits)
qed

lemma roundM_values:
  "roundM u v 6 = u" "roundM u v 7 = v" "roundM u v 0 = u" "roundM u v 1 = v"
  by (simp_all add: roundM_def)

lemma encrypt_shape:
  assumes R: "2 \<le> radix ctx" "radix ctx \<le> 36"
      and e: "encrypt ctx x = Inr z"
      and u: "u = (length x + 1) div 2" and v: "v = length x - u"
  shows "\<exists>c c'. 0 \<le> c \<and> c < radix ctx ^ u \<and> 0 \<le> c' \<and> c' < radix ctx ^ v
           \<and> runRounds (encryptRound ctx u v) [0 ..< NUM_ROUNDS] (take u x, drop u x)
                = Inr (rendered (radix ctx) u c, rendered (radix ctx) v c')
           \<and> z = rendered (radix ctx) u c @ rendered (radix ctx) v c'"
proof -
  from encrypt_Inr [OF e] obtain A' B' where
      r: "runRounds (encryptRound ctx u v) [0 ..< NUM_ROUNDS] (take u x, drop u x) = Inr (A', B')"
      and z: "z = A' @ B'"
    unfolding u v by blast
  from runRounds_two [OF r [unfolded upt8]] obtain s1 s2 where
      s2: "encryptRound ctx u v 6 s1 = Inr s2" and s3: "encryptRound ctx u v 7 s2 = Inr (A', B')"
    by blast
  from encryptRound_shape [OF R s2, unfolded roundM_values] obtain c where
      c: "0 \<le> c" "c < radix ctx ^ u" and s2e: "s2 = (snd s1, rendered (radix ctx) u c)"
    by blast
  from encryptRound_shape [OF R s3, unfolded roundM_values] obtain c' where
      c': "0 \<le> c'" "c' < radix ctx ^ v" and s3e: "(A', B') = (snd s2, rendered (radix ctx) v c')"
    by blast
  have A': "A' = rendered (radix ctx) u c" and B': "B' = rendered (radix ctx) v c'"
    using s2e s3e by simp_all
  show ?thesis
    apply (rule exI [of _ c])
    apply (rule exI [of _ c'])
    using c c' r z unfolding A' B' by simp
qed

lemma decrypt_shape:
  assumes R: "2 \<le> radix ctx" "radix ctx \<le> 36"
      and e: "decrypt ctx x = Inr z"
      and u: "u = (length x + 1) div 2" and v: "v = length x - u"
  shows "\<exists>c c'. 0 \<le> c \<and> c < radix ctx ^ u \<and> 0 \<le> c' \<and> c' < radix ctx ^ v
           \<and> runRounds (decryptRound ctx u v) (rev [0 ..< NUM_ROUNDS]) (take u x, drop u x)
                = Inr (rendered (radix ctx) u c, rendered (radix ctx) v c')
           \<and> z = rendered (radix ctx) u c @ rendered (radix ctx) v c'"
proof -
  from decrypt_Inr [OF e] obtain A' B' where
      r: "runRounds (decryptRound ctx u v) (rev [0 ..< NUM_ROUNDS]) (take u x, drop u x) = Inr (A', B')"
      and z: "z = A' @ B'"
    unfolding u v by blast
  from runRounds_two [OF r [unfolded rev_upt8]] obtain s1 s2 where
      s2: "decryptRound ctx u v 1 s1 = Inr s2" and s3: "decryptRound ctx u v 0 s2 = Inr (A', B')"
    by blast
  from decryptRound_shape [OF R s2, unfolded roundM_values] obtain c' where
      c': "0 \<le> c'" "c' < radix ctx ^ v" and s2e: "s2 = (rendered (radix ctx) v c', fst s1)"
    by blast
  from decryptRound_shape [OF R s3, unfolded roundM_values] obtain c where
      c: "0 \<le> c" "c < radix ctx ^ u" and s3e: "(A', B') = (rendered (radix ctx) u c, fst s2)"
    by blast
  have A': "A' = rendered (radix ctx) u c" and B': "B' = rendered (radix ctx) v c'"
    using s2e s3e by simp_all
  show ?thesis
    apply (rule exI [of _ c])
    apply (rule exI [of _ c'])
    using c c' r z unfolding A' B' by simp
qed

lemma rendered_length_le':
  assumes "2 \<le> R" "R \<le> 36" "0 \<le> c" "c < R ^ m"
  shows "length (rendered R m c) \<le> max m 1"
proof (cases "1 \<le> m")
  case True
  with rendered_length_le [OF assms(1,3,4)] show ?thesis by simp
next
  case False
  then have "m = 0" by simp
  with assms have "c = 0" by simp
  then show ?thesis using assms \<open>m = 0\<close> by (simp add: rendered_def natToDigits_zero)
qed

lemma x0_half: "''1000000000'' = CHR ''1'' # replicate 9 CHR ''0''"
  by (simp add: numeral_eq_Suc)

lemma rendered_not_x0_half:
  assumes c: "0 \<le> c"
  shows "rendered 10 10 c \<noteq> ''1000000000''"
proof
  let ?d = "natToDigits 10 c"
  assume e: "rendered 10 10 c = ''1000000000''"
  have ne: "?d \<noteq> []" using natToDigits_props [of 10 c] c by simp
  then have l1: "1 \<le> length ?d" by (cases ?d) simp_all
  have "length (rendered 10 10 c) = 10" unfolding e by simp
  then have l: "length ?d + min 8 (10 - length ?d) = 10" by (simp add: rendered_length)
  then have l2: "2 \<le> length ?d" "length ?d \<le> 10" using l1 by (simp_all add: min_def split: if_splits)
  have cpos: "0 < c"
  proof (rule ccontr)
    assume "\<not> 0 < c"
    with c have "c = 0" by simp
    then have "length ?d = 1" by (simp add: natToDigits_zero)
    with l2 show False by simp
  qed
  have hd: "hd ?d \<noteq> CHR ''0''" using natToDigits_hd [of 10 c] cpos by simp
  have "rev ?d = take (length (rev ?d)) (rendered 10 10 c)" by (simp add: rendered_def)
  then have r: "rev ?d = take (length ?d) (CHR ''1'' # replicate 9 CHR ''0'')"
    unfolding e x0_half by simp
  obtain k where k: "length ?d = Suc (Suc k)" using l2 by (metis Suc_le_D numeral_2_eq_2 Suc_le_mono)
  have "rev ?d = CHR ''1'' # replicate (min (Suc k) 9) CHR ''0''"
    unfolding r k by simp
  then have "last (rev ?d) = CHR ''0''" by simp
  then have "hd ?d = CHR ''0''" using ne by (simp add: last_rev)
  with hd show False by simp
qed

lemma rendered_one: "rendered 10 10 1 = ''100000000''"
  by code_simp

text \<open>
  C1 does not hold of the code: the padding \<^verbatim>\<open>"00000000".substring(0, m - C.length)\<close>
  appends at most eight zeros. For every cipher object of radix 10, whatever its key,
  tweak and block cipher, the plaintext \<^verbatim>\<open>10000000000000000000\<close> of 20 digits is not
  recovered: if \<^verbatim>\<open>encrypt\<close> returns \<open>y\<close>, then \<^verbatim>\<open>decrypt\<close> of \<open>y\<close> is not the
  plaintext.
\<close>

theorem roundtrip_breaks:
  assumes R: "radix ctx = 10"
  shows "\<forall>y. encrypt ctx ''10000000000000000000'' = Inr y
             \<longrightarrow> decrypt ctx y \<noteq> Inr ''10000000000000000000''"
proof (intro allI impI notI)
  fix y
  let ?x = "''10000000000000000000''"
  assume e: "encrypt ctx ?x = Inr y" and d: "decrypt ctx y = Inr ?x"
  have R2: "2 \<le> radix ctx" "radix ctx \<le> 36" using R by simp_all
  have ux: "10 = (length ?x + 1) div 2" "10 = length ?x - 10" by simp_all
  from encrypt_shape [OF R2 e ux] obtain c6 c7 where
      c6: "0 \<le> c6" "c6 < radix ctx ^ 10" and c7: "0 \<le> c7" "c7 < radix ctx ^ 10"
      and y: "y = rendered (radix ctx) 10 c6 @ rendered (radix ctx) 10 c7"
    by blast
  have ly: "length y \<le> 20"
    using rendered_length_le [OF R2(1) c6, of ] rendered_length_le [OF R2(1) c7] unfolding y by simp
  define u where "u = (length y + 1) div 2"
  define v where "v = length y - u"
  from decrypt_shape [OF R2 d u_def v_def] obtain c0 c1 where
      c0: "0 \<le> c0" "c0 < radix ctx ^ u" and c1: "0 \<le> c1" "c1 < radix ctx ^ v"
      and x: "?x = rendered (radix ctx) u c0 @ rendered (radix ctx) v c1"
    by blast
  have l0: "length (rendered (radix ctx) u c0) \<le> max u 1"
    and l1: "length (rendered (radix ctx) v c1) \<le> max v 1"
    using rendered_length_le' [OF R2 c0] rendered_length_le' [OF R2 c1] by simp_all
  have "length ?x = length (rendered (radix ctx) u c0) + length (rendered (radix ctx) v c1)"
    by (subst x) simp
  then have s: "length (rendered (radix ctx) u c0) + length (rendered (radix ctx) v c1) = 20" by simp
  have ar: "u = 10 \<and> a = 10"
    if "a + b = 20" "a \<le> max u 1" "b \<le> max v 1" "n \<le> 20" "u = (n + 1) div 2" "v = n - u"
    for a b n u v :: nat
    using that by (simp add: max_def split: if_splits) arith+
  have u10: "u = 10" and len0: "length (rendered (radix ctx) u c0) = 10"
    using ar [OF s l0 l1 ly u_def v_def] by blast+
  have "take 10 ?x = rendered (radix ctx) u c0"
    by (subst x) (simp add: len0)
  then have "rendered 10 10 c0 = ''1000000000''" unfolding u10 R by simp
  with rendered_not_x0_half [OF c0(1)] show False by simp
qed

text \<open>With the stand-in block cipher: the 20 digits are encrypted to 20 digits, which
  do not decrypt to the plaintext.\<close>

theorem roundtrip_breaks_witness:
  "radix (sampleCtx 10 6 56 sampleTweak) = 10
   \<and> encrypt (sampleCtx 10 6 56 sampleTweak) ''10000000000000000000'' = Inr ''54426713081248133385''
   \<and> decrypt (sampleCtx 10 6 56 sampleTweak) ''54426713081248133385'' \<noteq> Inr ''10000000000000000000''"
proof -
  have r: "radix (sampleCtx 10 6 56 sampleTweak) = 10" by (simp add: sampleCtx_def)
  have e: "encrypt (sampleCtx 10 6 56 sampleTweak) ''10000000000000000000''
             = Inr ''54426713081248133385''" by code_simp
  from roundtrip_breaks [OF r] e r show ?thesis by blast
qed

section \<open>Decryption inverts encryption on the numbers of the halves\<close>

lemma roundM_Suc_Suc: "roundM u v (Suc (Suc j)) = roundM u v j"
  by (simp add: roundM_def)

lemma round_forward:
  assumes R: "2 \<le> radix ctx" "radix ctx \<le> 36"
      and ok: "okState (radix ctx) st" and cl: "classOk (radix ctx) u v j st"
      and e: "encryptRound ctx u v j st = Inr st1"
  shows "okState (radix ctx) st1" and "classOk (radix ctx) u v (Suc j) st1"
    and "\<exists>y. roundY ctx j (roundW ctx j) (snd st) = Inr y
            \<and> st1 = (snd st, rendered (radix ctx) (roundM u v j)
                              ((num (radix ctx) (fst st) + y) mod radix ctx ^ roundM u v j))"
proof -
  let ?R = "radix ctx" and ?m = "roundM u v j"
  obtain A B where st: "st = (A, B)" by (cases st)
  have A: "validDigits ?R A" "A \<noteq> []" and B: "validDigits ?R B" "B \<noteq> []"
    using ok st by (simp_all add: okState_def)
  from e obtain y where y: "roundY ctx j (roundW ctx j) B = Inr y"
    and s1: "st1 = (B, rendered ?R ?m ((num ?R A + y) mod ?R ^ ?m))"
    unfolding st encryptRound_eq [OF R A] by (auto split: sum.splits)
  note m = mod_range [OF R(1), of "num ?R A + y" ?m]
  note rp = rendered_props [OF R m(1), of ?m]
  show "okState ?R st1" using s1 B rp by (simp add: okState_def)
  show "classOk ?R u v (Suc j) st1"
    using s1 cl st rp(3) m(2) by (simp add: classOk_def roundM_Suc_Suc)
  show "\<exists>y. roundY ctx j (roundW ctx j) (snd st) = Inr y
            \<and> st1 = (snd st, rendered ?R ?m ((num ?R (fst st) + y) mod ?R ^ ?m))"
    using y s1 st by simp
qed

lemma round_inverts:
  assumes R: "2 \<le> radix ctx" "radix ctx \<le> 36"
      and ok: "okState (radix ctx) st" and cl: "classOk (radix ctx) u v j st"
      and e: "encryptRound ctx u v j st = Inr st1"
      and sim: "sameNums (radix ctx) st1 st1'"
  shows "\<exists>st'. decryptRound ctx u v j st1' = Inr st' \<and> sameNums (radix ctx) st st'"
proof -
  let ?R = "radix ctx" and ?m = "roundM u v j"
  obtain A B where st: "st = (A, B)" by (cases st)
  obtain A1 B1 where st1': "st1' = (A1, B1)" by (cases st1')
  have A: "validDigits ?R A" "A \<noteq> []" and B: "validDigits ?R B" "B \<noteq> []"
    using ok st by (simp_all add: okState_def)
  have nA: "0 \<le> num ?R A" "num ?R A < ?R ^ ?m"
    using num_bounds [OF A(1)] R cl st by (simp_all add: classOk_def)
  from round_forward(3) [OF R ok cl e] obtain y where y: "roundY ctx j (roundW ctx j) B = Inr y"
    and s1: "st1 = (B, rendered ?R ?m ((num ?R A + y) mod ?R ^ ?m))"
    unfolding st by auto
  let ?c = "(num ?R A + y) mod ?R ^ ?m"
  note m = mod_range [OF R(1), of "num ?R A + y" ?m]
  note rp = rendered_props [OF R m(1), of ?m]
  have A1: "validDigits ?R A1" "A1 \<noteq> []" and B1: "validDigits ?R B1" "B1 \<noteq> []"
    and n1: "num ?R A1 = num ?R B" "num ?R B1 = ?c"
    using sim st1' s1 rp(3) by (simp_all add: sameNums_def okState_def)
  have y1: "roundY ctx j (roundW ctx j) A1 = Inr y"
    using roundY_cong [OF R A1 B n1(1)] y by simp
  have "(?c - y) mod ?R ^ ?m = (num ?R A + y - y) mod ?R ^ ?m"
    by (simp add: mod_diff_left_eq)
  also have "\<dots> = num ?R A" using nA by simp
  finally have c: "(num ?R B1 - y) mod ?R ^ ?m = num ?R A" unfolding n1(2) .
  have d: "decryptRound ctx u v j st1' = Inr (rendered ?R ?m (num ?R A), A1)"
    unfolding st1' decryptRound_eq [OF R B1] y1 by (simp add: c)
  note rq = rendered_props [OF R nA(1), of ?m]
  have "sameNums ?R st (rendered ?R ?m (num ?R A), A1)"
    using rq A1 n1(1) st by (simp add: sameNums_def okState_def)
  with d show ?thesis by blast
qed

lemma rounds_invert:
  assumes R: "2 \<le> radix ctx" "radix ctx \<le> 36"
  shows "okState (radix ctx) st0 \<Longrightarrow> classOk (radix ctx) u v 0 st0 \<Longrightarrow>
         runRounds (encryptRound ctx u v) [0 ..< k] st0 = Inr stk \<Longrightarrow>
         okState (radix ctx) stk \<and> classOk (radix ctx) u v k stk
         \<and> (\<forall>stk'. sameNums (radix ctx) stk stk' \<longrightarrow>
               (\<exists>st0'. runRounds (decryptRound ctx u v) (rev [0 ..< k]) stk' = Inr st0'
                        \<and> sameNums (radix ctx) st0 st0'))"
proof (induction k arbitrary: stk)
  case 0
  then show ?case by simp
next
  case (Suc k)
  from Suc.prems(3) obtain sk where
      sk: "runRounds (encryptRound ctx u v) [0 ..< k] st0 = Inr sk"
      and e: "encryptRound ctx u v k sk = Inr stk"
    by (auto simp: runRounds_append split: sum.splits)
  from Suc.IH [OF Suc.prems(1,2) sk]
  have ok: "okState (radix ctx) sk" and cl: "classOk (radix ctx) u v k sk"
    and inv: "\<And>sk'. sameNums (radix ctx) sk sk' \<Longrightarrow>
               \<exists>st0'. runRounds (decryptRound ctx u v) (rev [0 ..< k]) sk' = Inr st0'
                        \<and> sameNums (radix ctx) st0 st0'"
    by blast+
  have "\<exists>st0'. runRounds (decryptRound ctx u v) (rev [0 ..< Suc k]) stk' = Inr st0'
                        \<and> sameNums (radix ctx) st0 st0'"
    if sim: "sameNums (radix ctx) stk stk'" for stk'
  proof -
    from round_inverts [OF R ok cl e sim] obtain sk' where
        d: "decryptRound ctx u v k stk' = Inr sk'" and s: "sameNums (radix ctx) sk sk'"
      by blast
    from inv [OF s] obtain st0' where
        "runRounds (decryptRound ctx u v) (rev [0 ..< k]) sk' = Inr st0'"
        "sameNums (radix ctx) st0 st0'" by blast
    then show ?thesis using d by auto
  qed
  with round_forward(1,2) [OF R ok cl e] show ?case by blast
qed

lemma encrypt_checks:
  assumes "encrypt ctx x = Inr y"
  shows "\<not> (int (length x) < minLen ctx \<or> int (length x) > maxLen ctx)"
    and "\<not> (length (tweakBytes ctx) \<noteq> TWEAK_LEN \<and> length (tweakBytes ctx) \<noteq> TWEAK_LEN_NEW)"
  using assms by (simp_all add: encrypt_def Let_def split: if_splits)

lemma decrypt_unfold:
  assumes "\<not> (int (length x) < minLen ctx \<or> int (length x) > maxLen ctx)"
      and "\<not> (length (tweakBytes ctx) \<noteq> TWEAK_LEN \<and> length (tweakBytes ctx) \<noteq> TWEAK_LEN_NEW)"
      and "u = (length x + 1) div 2" and "v = length x - u"
      and "runRounds (decryptRound ctx u v) (rev [0 ..< NUM_ROUNDS]) (take u x, drop u x) = Inr (A', B')"
  shows "decrypt ctx x = Inr (A' @ B')"
  using assms by (simp add: decrypt_def Let_def)

lemma sameNums_refl: "okState R st \<Longrightarrow> sameNums R st st"
  by (simp add: sameNums_def)

lemma decrypt_encrypt:
  assumes R: "2 \<le> radix ctx" "radix ctx \<le> 36"
      and x: "validDigits (radix ctx) x" and n2: "2 \<le> length x"
      and e: "encrypt ctx x = Inr y" and ly: "length y = length x"
      and u: "u = (length x + 1) div 2" and v: "v = length x - u"
  shows "decrypt ctx y = Inr (rendered (radix ctx) u (num (radix ctx) (take u x))
                              @ rendered (radix ctx) v (num (radix ctx) (drop u x)))"
proof -
  let ?R = "radix ctx"
  let ?st0 = "(take u x, drop u x)"
  note sp = split_halvesOk [OF x n2 u v]
  have ok0: "okState ?R ?st0" using sp(1) by (simp add: halvesOk_def)
  have lt: "length (take u x) = u" "length (drop u x) = v" using sp(4) v by simp_all
  have cl0: "classOk ?R u v 0 ?st0"
    using num_bounds [of ?R "take u x"] num_bounds [of ?R "drop u x"] ok0 R lt
    by (simp add: classOk_def okState_def roundM_def)
  from encrypt_shape [OF R e u v] obtain c6 c7 where
      c6: "0 \<le> c6" "c6 < ?R ^ u" and c7: "0 \<le> c7" "c7 < ?R ^ v"
      and r: "runRounds (encryptRound ctx u v) [0 ..< NUM_ROUNDS] ?st0
                = Inr (rendered ?R u c6, rendered ?R v c7)"
      and y: "y = rendered ?R u c6 @ rendered ?R v c7"
    by blast
  have l6: "length (rendered ?R u c6) \<le> u" and l7: "length (rendered ?R v c7) \<le> v"
    using rendered_length_le [OF R(1) c6] rendered_length_le [OF R(1) c7 sp(2)] sp(2,3) by simp_all
  have "length (rendered ?R u c6) + length (rendered ?R v c7) = u + v"
    using ly sp(4) unfolding y by simp
  then have l6e: "length (rendered ?R u c6) = u" using l6 l7 by simp
  have ty: "take u y = rendered ?R u c6" "drop u y = rendered ?R v c7"
    unfolding y using l6e by simp_all
  from rounds_invert [OF R ok0 cl0 r]
  have ok8: "okState ?R (rendered ?R u c6, rendered ?R v c7)"
    and inv: "\<And>s. sameNums ?R (rendered ?R u c6, rendered ?R v c7) s \<Longrightarrow>
               \<exists>st0'. runRounds (decryptRound ctx u v) (rev [0 ..< NUM_ROUNDS]) s = Inr st0'
                        \<and> sameNums ?R ?st0 st0'"
    by blast+
  from inv [OF sameNums_refl [OF ok8]] obtain st0' where
      d: "runRounds (decryptRound ctx u v) (rev [0 ..< NUM_ROUNDS])
            (rendered ?R u c6, rendered ?R v c7) = Inr st0'"
      and s: "sameNums ?R ?st0 st0'"
    by blast
  from runRounds_two [OF d [unfolded rev_upt8]] obtain s1 s2 where
      s2: "decryptRound ctx u v 1 s1 = Inr s2" and s3: "decryptRound ctx u v 0 s2 = Inr st0'"
    by blast
  from decryptRound_shape [OF R s2, unfolded roundM_values] obtain c1 where
      c1: "0 \<le> c1" and s2e: "s2 = (rendered ?R v c1, fst s1)"
    by blast
  from decryptRound_shape [OF R s3, unfolded roundM_values] obtain c0 where
      c0: "0 \<le> c0" and s3e: "st0' = (rendered ?R u c0, fst s2)"
    by blast
  have st0': "st0' = (rendered ?R u c0, rendered ?R v c1)" using s2e s3e by simp
  have "c0 = num ?R (take u x)" "c1 = num ?R (drop u x)"
    using s rendered_props(3) [OF R c0, of u] rendered_props(3) [OF R c1, of v]
    unfolding st0' by (simp_all add: sameNums_def)
  then have d': "runRounds (decryptRound ctx u v) (rev [0 ..< NUM_ROUNDS]) (take u y, drop u y)
      = Inr (rendered ?R u (num ?R (take u x)), rendered ?R v (num ?R (drop u x)))"
    using d unfolding st0' ty by simp
  note ch = encrypt_checks [OF e]
  show ?thesis
    by (rule decrypt_unfold [OF ch [folded ly] u [folded ly] v [folded ly] d'])
qed

lemma num_x0: "num 10 (take 10 ''10000000000000000000'') = 1"
  "num 10 (drop 10 ''10000000000000000000'') = 0"
  by code_simp+

lemma rendered_zero: "rendered 10 10 0 = ''000000000''"
  by code_simp

lemma valid_x0: "validDigits 10 ''10000000000000000000''"
  by code_simp

lemma output_digits:
  assumes R: "2 \<le> radix ctx" "radix ctx \<le> 36" and n2: "2 \<le> length x"
      and e: "encrypt ctx x = Inr y \<or> decrypt ctx x = Inr y"
  shows "validDigits (radix ctx) y" and "length y \<le> length x" and "y \<noteq> []"
proof -
  define u where "u = (length x + 1) div 2"
  define v where "v = length x - u"
  have uv: "1 \<le> u" "1 \<le> v" "u + v = length x" using n2 unfolding u_def v_def by simp_all
  from e encrypt_shape [OF R _ u_def v_def] decrypt_shape [OF R _ u_def v_def]
  obtain c c' where c: "0 \<le> c" "c < radix ctx ^ u" and c': "0 \<le> c'" "c' < radix ctx ^ v"
      and y: "y = rendered (radix ctx) u c @ rendered (radix ctx) v c'"
    by blast
  show "validDigits (radix ctx) y"
    unfolding y using rendered_props(1) [OF R c(1)] rendered_props(1) [OF R c'(1)] by simp
  show "length y \<le> length x"
    unfolding y using rendered_length_le [OF R(1) c uv(1)] rendered_length_le [OF R(1) c' uv(2)] uv(3)
    by simp
  show "y \<noteq> []" unfolding y using rendered_props(2) [OF R c(1)] by simp
qed

lemma roundtrip_short:
  assumes R: "2 \<le> radix ctx" "radix ctx \<le> 36"
      and x: "validDigits (radix ctx) x" and n: "2 \<le> length x" "length x \<le> 18"
      and e: "encrypt ctx x = Inr y"
  shows "decrypt ctx y = Inr x" and "length y = length x"
proof -
  let ?R = "radix ctx"
  define u where "u = (length x + 1) div 2"
  define v where "v = length x - u"
  have uv: "1 \<le> u" "1 \<le> v" "u + v = length x" "u \<le> 9" "v \<le> 9"
    using n unfolding u_def v_def by simp_all
  from encrypt_shape [OF R e u_def v_def] obtain c c' where
      c: "0 \<le> c" "c < ?R ^ u" and c': "0 \<le> c'" "c' < ?R ^ v"
      and y: "y = rendered ?R u c @ rendered ?R v c'"
    by blast
  show l: "length y = length x"
    unfolding y
    using rendered_length_eq [OF R c uv(1,4)] rendered_length_eq [OF R c' uv(2,5)] uv(3) by simp
  have tv: "validDigits ?R (take u x)" "validDigits ?R (drop u x)"
    using x by (simp_all add: validDigits_take validDigits_drop)
  have tl: "length (take u x) = u" "length (drop u x) = v" using uv(3) v_def by simp_all
  have tn: "take u x \<noteq> []" "drop u x \<noteq> []" using tl uv(1,2) by auto
  have d1: "1 \<le> length (natToDigits ?R (num ?R s))" if "validDigits ?R s" for s
  proof -
    have "0 \<le> num ?R s" using num_bounds [OF that] R by simp
    from natToDigits_props [OF R this] show ?thesis
      by (cases "natToDigits ?R (num ?R s)") simp_all
  qed
  have "rendered ?R (length (take u x)) (num ?R (take u x)) = take u x"
    using d1 [OF tv(1)] tl(1) uv(4) by (intro rendered_canonical [OF R tv(1) tn(1)]) simp
  moreover have "rendered ?R (length (drop u x)) (num ?R (drop u x)) = drop u x"
    using d1 [OF tv(2)] tl(2) uv(5) by (intro rendered_canonical [OF R tv(2) tn(2)]) simp
  ultimately show "decrypt ctx y = Inr x"
    using decrypt_encrypt [OF R x n(1) e l u_def v_def] unfolding tl by simp
qed

lemma roundY_succeeds:
  assumes R: "2 \<le> radix ctx" "radix ctx \<le> 36"
      and X: "validDigits (radix ctx) X" "X \<noteq> []" and lt: "num (radix ctx) X < 2 ^ 96"
      and o: "\<And>b. aesCipher ctx b \<noteq> []"
  shows "\<exists>y. roundY ctx i W X = Inr y"
proof -
  have n0: "0 \<le> num (radix ctx) X" using num_bounds [OF X(1)] R by simp
  have "length (bigToUint8Array (num (radix ctx) X)) \<le> 12"
    using bigToUint8Array_length [OF n0, of 12] lt by simp
  then show ?thesis
    unfolding roundY_num [OF R X] Let_def using o by (simp add: BigInt_hex_def)
qed

lemma encryptRounds_succeed:
  assumes c: "FF3Cipher_constructor cc key tweak rdx = Inr ctx"
      and n: "int (length x) \<le> maxLen ctx" and u: "u = (length x + 1) div 2"
      and uv: "1 \<le> v" "v \<le> u"
      and o: "\<And>b. aesCipher ctx b \<noteq> []"
  shows "halvesOk (radix ctx) u st \<Longrightarrow> \<exists>st'. runRounds (encryptRound ctx u v) is st = Inr st'"
proof (induction "is" arbitrary: st)
  case Nil
  show ?case by simp
next
  case (Cons i "is")
  note k = constructor_Inr [OF c]
  have R: "2 \<le> radix ctx" "radix ctx \<le> 36" using k by simp_all
  obtain A B where st: "st = (A, B)" by (cases st)
  have A: "validDigits (radix ctx) A" "A \<noteq> []" and B: "validDigits (radix ctx) B" "B \<noteq> []"
      "length B \<le> u"
    using Cons.prems st by (simp_all add: halvesOk_def okState_def)
  note hb = half_value_bound [OF c n u B(1,3)]
  from roundY_succeeds [OF R B(1,2) hb(2) o] obtain y where
      "roundY ctx i (roundW ctx i) B = Inr y" by blast
  then obtain st1 where s1: "encryptRound ctx u v i st = Inr st1"
    unfolding st encryptRound_eq [OF R A] by simp
  from encryptRound_halvesOk [OF R uv Cons.prems s1] have "halvesOk (radix ctx) u st1" .
  from Cons.IH [OF this] s1 show ?case by simp
qed

lemma encrypt_succeeds:
  assumes c: "FF3Cipher_constructor cc key tweak rdx = Inr ctx"
      and t: "length (hexDecode tweak) = 7 \<or> length (hexDecode tweak) = 8"
      and x: "validDigits rdx x"
      and n: "minLen ctx \<le> int (length x)" "int (length x) \<le> maxLen ctx"
      and o: "\<And>b. aesCipher ctx b \<noteq> []"
  shows "\<exists>y. encrypt ctx x = Inr y"
proof -
  note k = constructor_Inr [OF c]
  define u where "u = (length x + 1) div 2"
  define v where "v = length x - u"
  have n2: "2 \<le> length x" using n(1) k(7) by simp
  note sp = split_halvesOk [OF x [folded k(4)] n2 u_def v_def]
  from encryptRounds_succeed [OF c n(2) u_def sp(2,3) o sp(1)] obtain st' where
      r: "runRounds (encryptRound ctx u v) [0 ..< NUM_ROUNDS] (take u x, drop u x) = Inr st'"
    by blast
  have tw: "length (tweakBytes ctx) = 8"
    using t k(9) by (auto simp: calculateTweak64_FF3_1_def)
  obtain A' B' where "st' = (A', B')" by (cases st')
  then have "encrypt ctx x = Inr (A' @ B')"
    using r n tw unfolding u_def v_def
    by (simp add: encrypt_def Let_def TWEAK_LEN_def TWEAK_LEN_NEW_def)
  then show ?thesis by blast
qed

lemma round_backward:
  assumes R: "2 \<le> radix ctx" "radix ctx \<le> 36"
      and ok: "okState (radix ctx) st" and cl: "classOk (radix ctx) u v (Suc j) st"
      and e: "decryptRound ctx u v j st = Inr st1"
  shows "okState (radix ctx) st1" and "classOk (radix ctx) u v j st1"
    and "\<exists>y. roundY ctx j (roundW ctx j) (fst st) = Inr y
            \<and> st1 = (rendered (radix ctx) (roundM u v j)
                         ((num (radix ctx) (snd st) - y) mod radix ctx ^ roundM u v j), fst st)"
proof -
  let ?R = "radix ctx" and ?m = "roundM u v j"
  obtain A B where st: "st = (A, B)" by (cases st)
  have A: "validDigits ?R A" "A \<noteq> []" and B: "validDigits ?R B" "B \<noteq> []"
    using ok st by (simp_all add: okState_def)
  from e obtain y where y: "roundY ctx j (roundW ctx j) A = Inr y"
    and s1: "st1 = (rendered ?R ?m ((num ?R B - y) mod ?R ^ ?m), A)"
    unfolding st decryptRound_eq [OF R B] by (auto split: sum.splits)
  note m = mod_range [OF R(1), of "num ?R B - y" ?m]
  note rp = rendered_props [OF R m(1), of ?m]
  show "okState ?R st1" using s1 A rp by (simp add: okState_def)
  show "classOk ?R u v j st1"
    using s1 cl st rp(3) m(2) by (simp add: classOk_def roundM_Suc_Suc)
  show "\<exists>y. roundY ctx j (roundW ctx j) (fst st) = Inr y
            \<and> st1 = (rendered ?R ?m ((num ?R (snd st) - y) mod ?R ^ ?m), fst st)"
    using y s1 st by simp
qed

lemma round_reinverts:
  assumes R: "2 \<le> radix ctx" "radix ctx \<le> 36"
      and ok: "okState (radix ctx) st" and cl: "classOk (radix ctx) u v (Suc j) st"
      and e: "decryptRound ctx u v j st = Inr st1"
      and sim: "sameNums (radix ctx) st1 st1'"
  shows "\<exists>st'. encryptRound ctx u v j st1' = Inr st' \<and> sameNums (radix ctx) st st'"
proof -
  let ?R = "radix ctx" and ?m = "roundM u v j"
  obtain A B where st: "st = (A, B)" by (cases st)
  obtain A1 B1 where st1': "st1' = (A1, B1)" by (cases st1')
  have A: "validDigits ?R A" "A \<noteq> []" and B: "validDigits ?R B" "B \<noteq> []"
    using ok st by (simp_all add: okState_def)
  have nB: "0 \<le> num ?R B" "num ?R B < ?R ^ ?m"
    using num_bounds [OF B(1)] R cl st by (simp_all add: classOk_def roundM_Suc_Suc)
  from round_backward(3) [OF R ok cl e] obtain y where y: "roundY ctx j (roundW ctx j) A = Inr y"
    and s1: "st1 = (rendered ?R ?m ((num ?R B - y) mod ?R ^ ?m), A)"
    unfolding st by auto
  let ?c = "(num ?R B - y) mod ?R ^ ?m"
  note m = mod_range [OF R(1), of "num ?R B - y" ?m]
  note rp = rendered_props [OF R m(1), of ?m]
  have A1: "validDigits ?R A1" "A1 \<noteq> []" and B1: "validDigits ?R B1" "B1 \<noteq> []"
    and n1: "num ?R A1 = ?c" "num ?R B1 = num ?R A"
    using sim st1' s1 rp(3) by (simp_all add: sameNums_def okState_def)
  have y1: "roundY ctx j (roundW ctx j) B1 = Inr y"
    using roundY_cong [OF R B1 A n1(2)] y by simp
  have "(?c + y) mod ?R ^ ?m = (num ?R B - y + y) mod ?R ^ ?m"
    by (simp add: mod_add_left_eq)
  also have "\<dots> = num ?R B" using nB by simp
  finally have c: "(num ?R A1 + y) mod ?R ^ ?m = num ?R B" unfolding n1(1) .
  have d: "encryptRound ctx u v j st1' = Inr (B1, rendered ?R ?m (num ?R B))"
    unfolding st1' encryptRound_eq [OF R A1] y1 by (simp add: c)
  note rq = rendered_props [OF R nB(1), of ?m]
  have "sameNums ?R st (B1, rendered ?R ?m (num ?R B))"
    using rq B1 n1(2) st by (simp add: sameNums_def okState_def)
  with d show ?thesis by blast
qed

lemma rounds_reinvert:
  assumes R: "2 \<le> radix ctx" "radix ctx \<le> 36"
  shows "okState (radix ctx) stk \<Longrightarrow> classOk (radix ctx) u v k stk \<Longrightarrow>
         runRounds (decryptRound ctx u v) (rev [0 ..< k]) stk = Inr st0 \<Longrightarrow>
         okState (radix ctx) st0
         \<and> (\<forall>st0'. sameNums (radix ctx) st0 st0' \<longrightarrow>
               (\<exists>stk'. runRounds (encryptRound ctx u v) [0 ..< k] st0' = Inr stk'
                        \<and> sameNums (radix ctx) stk stk'))"
proof (induction k arbitrary: stk)
  case 0
  then show ?case by simp
next
  case (Suc k)
  from Suc.prems(3) obtain s1 where
      d: "decryptRound ctx u v k stk = Inr s1"
      and r: "runRounds (decryptRound ctx u v) (rev [0 ..< k]) s1 = Inr st0"
    by (auto split: sum.splits)
  note b = round_backward(1,2) [OF R Suc.prems(1,2) d]
  from Suc.IH [OF b r]
  have ok: "okState (radix ctx) st0"
    and inv: "\<And>st0'. sameNums (radix ctx) st0 st0' \<Longrightarrow>
               \<exists>s1'. runRounds (encryptRound ctx u v) [0 ..< k] st0' = Inr s1'
                        \<and> sameNums (radix ctx) s1 s1'"
    by blast+
  have "\<exists>stk'. runRounds (encryptRound ctx u v) [0 ..< Suc k] st0' = Inr stk'
                        \<and> sameNums (radix ctx) stk stk'"
    if sim: "sameNums (radix ctx) st0 st0'" for st0'
  proof -
    from inv [OF sim] obtain s1' where
        e: "runRounds (encryptRound ctx u v) [0 ..< k] st0' = Inr s1'"
        and s: "sameNums (radix ctx) s1 s1'" by blast
    from round_reinverts [OF R Suc.prems(1,2) d s] obtain stk' where
        "encryptRound ctx u v k s1' = Inr stk'" "sameNums (radix ctx) stk stk'" by blast
    then show ?thesis using e by (auto simp: runRounds_append)
  qed
  with ok show ?case by blast
qed

lemma decrypt_checks:
  assumes "decrypt ctx x = Inr y"
  shows "\<not> (int (length x) < minLen ctx \<or> int (length x) > maxLen ctx)"
    and "\<not> (length (tweakBytes ctx) \<noteq> TWEAK_LEN \<and> length (tweakBytes ctx) \<noteq> TWEAK_LEN_NEW)"
  using assms by (simp_all add: decrypt_def Let_def split: if_splits)

lemma encrypt_unfold:
  assumes "\<not> (int (length x) < minLen ctx \<or> int (length x) > maxLen ctx)"
      and "\<not> (length (tweakBytes ctx) \<noteq> TWEAK_LEN \<and> length (tweakBytes ctx) \<noteq> TWEAK_LEN_NEW)"
      and "u = (length x + 1) div 2" and "v = length x - u"
      and "runRounds (encryptRound ctx u v) [0 ..< NUM_ROUNDS] (take u x, drop u x) = Inr (A', B')"
  shows "encrypt ctx x = Inr (A' @ B')"
  using assms by (simp add: encrypt_def Let_def)

lemma encrypt_decrypt:
  assumes R: "2 \<le> radix ctx" "radix ctx \<le> 36"
      and x: "validDigits (radix ctx) x" and n2: "2 \<le> length x"
      and e: "decrypt ctx x = Inr y" and ly: "length y = length x"
      and u: "u = (length x + 1) div 2" and v: "v = length x - u"
  shows "encrypt ctx y = Inr (rendered (radix ctx) u (num (radix ctx) (take u x))
                              @ rendered (radix ctx) v (num (radix ctx) (drop u x)))"
proof -
  let ?R = "radix ctx"
  let ?st8 = "(take u x, drop u x)"
  note sp = split_halvesOk [OF x n2 u v]
  have ok8: "okState ?R ?st8" using sp(1) by (simp add: halvesOk_def)
  have lt: "length (take u x) = u" "length (drop u x) = v" using sp(4) v by simp_all
  have cl8: "classOk ?R u v NUM_ROUNDS ?st8"
    using num_bounds [of ?R "take u x"] num_bounds [of ?R "drop u x"] ok8 R lt
    by (simp add: classOk_def okState_def roundM_def NUM_ROUNDS_def)
  from decrypt_shape [OF R e u v] obtain c0 c1 where
      c0: "0 \<le> c0" "c0 < ?R ^ u" and c1: "0 \<le> c1" "c1 < ?R ^ v"
      and r: "runRounds (decryptRound ctx u v) (rev [0 ..< NUM_ROUNDS]) ?st8
                = Inr (rendered ?R u c0, rendered ?R v c1)"
      and y: "y = rendered ?R u c0 @ rendered ?R v c1"
    by blast
  have l0: "length (rendered ?R u c0) \<le> u" and l1: "length (rendered ?R v c1) \<le> v"
    using rendered_length_le [OF R(1) c0] rendered_length_le [OF R(1) c1 sp(2)] sp(2,3) by simp_all
  have "length (rendered ?R u c0) + length (rendered ?R v c1) = u + v"
    using ly sp(4) unfolding y by simp
  then have l0e: "length (rendered ?R u c0) = u" using l0 l1 by simp
  have ty: "take u y = rendered ?R u c0" "drop u y = rendered ?R v c1"
    unfolding y using l0e by simp_all
  from rounds_reinvert [OF R ok8 cl8 r]
  have ok0: "okState ?R (rendered ?R u c0, rendered ?R v c1)"
    and inv: "\<And>s. sameNums ?R (rendered ?R u c0, rendered ?R v c1) s \<Longrightarrow>
               \<exists>st8'. runRounds (encryptRound ctx u v) [0 ..< NUM_ROUNDS] s = Inr st8'
                        \<and> sameNums ?R ?st8 st8'"
    by blast+
  from inv [OF sameNums_refl [OF ok0]] obtain st8' where
      d: "runRounds (encryptRound ctx u v) [0 ..< NUM_ROUNDS]
            (rendered ?R u c0, rendered ?R v c1) = Inr st8'"
      and s: "sameNums ?R ?st8 st8'"
    by blast
  from runRounds_two [OF d [unfolded upt8]] obtain s1 s2 where
      s2: "encryptRound ctx u v 6 s1 = Inr s2" and s3: "encryptRound ctx u v 7 s2 = Inr st8'"
    by blast
  from encryptRound_shape [OF R s2, unfolded roundM_values] obtain c6 where
      c6: "0 \<le> c6" and s2e: "s2 = (snd s1, rendered ?R u c6)"
    by blast
  from encryptRound_shape [OF R s3, unfolded roundM_values] obtain c7 where
      c7: "0 \<le> c7" and s3e: "st8' = (snd s2, rendered ?R v c7)"
    by blast
  have st8': "st8' = (rendered ?R u c6, rendered ?R v c7)" using s2e s3e by simp
  have "c6 = num ?R (take u x)" "c7 = num ?R (drop u x)"
    using s rendered_props(3) [OF R c6, of u] rendered_props(3) [OF R c7, of v]
    unfolding st8' by (simp_all add: sameNums_def)
  then have d': "runRounds (encryptRound ctx u v) [0 ..< NUM_ROUNDS] (take u y, drop u y)
      = Inr (rendered ?R u (num ?R (take u x)), rendered ?R v (num ?R (drop u x)))"
    using d unfolding st8' ty by simp
  note ch = decrypt_checks [OF e]
  show ?thesis
    by (rule encrypt_unfold [OF ch [folded ly] u [folded ly] v [folded ly] d'])
qed

text \<open>
  C2 does not hold of the code, by the same padding: the value 1 rendered for a half of
  \<open>m = 10\<close> digits has 9 characters. For every cipher object of radix 10: if
  \<^verbatim>\<open>encrypt\<close> of \<^verbatim>\<open>10000000000000000000\<close> returns 20 characters, then \<^verbatim>\<open>decrypt\<close>
  of them returns the 18 characters \<^verbatim>\<open>100000000000000000\<close>; and if \<^verbatim>\<open>decrypt\<close> of
  \<^verbatim>\<open>10000000000000000000\<close> returns a plaintext of 20 characters, then \<^verbatim>\<open>encrypt\<close> of
  that plaintext returns these 18 characters. In each case some call returns fewer
  characters than it was given.
\<close>

theorem length_not_preserved:
  assumes R: "radix ctx = 10"
  shows "renderC 1 10 10 = Inr ''100000000''
       \<and> (\<forall>y. encrypt ctx ''10000000000000000000'' = Inr y \<longrightarrow>
             length y < length ''10000000000000000000''
             \<or> (decrypt ctx y = Inr ''100000000000000000'' \<and> length ''100000000000000000'' < length y))
       \<and> (\<forall>x. decrypt ctx ''10000000000000000000'' = Inr x \<longrightarrow>
             length x < length ''10000000000000000000''
             \<or> (encrypt ctx x = Inr ''100000000000000000'' \<and> length ''100000000000000000'' < length x))"
proof (intro conjI allI impI)
  show "renderC 1 10 10 = Inr ''100000000''"
    using renderC_eq [of 10 1 10] by (simp add: rendered_one)
next
  fix y
  let ?x = "''10000000000000000000''"
  assume e: "encrypt ctx ?x = Inr y"
  have R2: "2 \<le> radix ctx" "radix ctx \<le> 36" using R by simp_all
  have ux: "10 = (length ?x + 1) div 2" "10 = length ?x - 10" by simp_all
  have v: "validDigits (radix ctx) ?x" unfolding R by (rule valid_x0)
  have ly: "length y \<le> length ?x" using output_digits(2) [OF R2 _ disjI1 [OF e]] by simp
  show "length y < length ?x \<or> (decrypt ctx y = Inr ''100000000000000000''
          \<and> length ''100000000000000000'' < length y)"
  proof (cases "length y = length ?x")
    case False
    with ly show ?thesis by simp
  next
    case True
    have "decrypt ctx y = Inr (rendered 10 10 1 @ rendered 10 10 0)"
      using decrypt_encrypt [OF R2 v _ e True ux] unfolding R num_x0 by simp
    then show ?thesis using True by (simp add: rendered_one rendered_zero)
  qed
next
  fix x
  let ?y = "''10000000000000000000''"
  assume d: "decrypt ctx ?y = Inr x"
  have R2: "2 \<le> radix ctx" "radix ctx \<le> 36" using R by simp_all
  have ux: "10 = (length ?y + 1) div 2" "10 = length ?y - 10" by simp_all
  have v: "validDigits (radix ctx) ?y" unfolding R by (rule valid_x0)
  have lx: "length x \<le> length ?y" using output_digits(2) [OF R2 _ disjI2 [OF d]] by simp
  show "length x < length ?y \<or> (encrypt ctx x = Inr ''100000000000000000''
          \<and> length ''100000000000000000'' < length x)"
  proof (cases "length x = length ?y")
    case False
    with lx show ?thesis by simp
  next
    case True
    have "encrypt ctx x = Inr (rendered 10 10 1 @ rendered 10 10 0)"
      using encrypt_decrypt [OF R2 v _ d True ux] unfolding R num_x0 by simp
    then show ?thesis using True by (simp add: rendered_one rendered_zero)
  qed
qed

text \<open>With the stand-in block cipher both cases occur: a ciphertext of 20 digits that
  decrypts to 18, and a plaintext of 20 digits that encrypts to 18.\<close>

theorem length_not_preserved_witness:
  "radix (sampleCtx 10 6 56 sampleTweak) = 10
   \<and> encrypt (sampleCtx 10 6 56 sampleTweak) ''10000000000000000000'' = Inr ''54426713081248133385''
   \<and> decrypt (sampleCtx 10 6 56 sampleTweak) ''54426713081248133385'' = Inr ''100000000000000000''
   \<and> decrypt (sampleCtx 10 6 56 sampleTweak) ''10000000000000000000'' = Inr ''64736791491581783382''
   \<and> encrypt (sampleCtx 10 6 56 sampleTweak) ''64736791491581783382'' = Inr ''100000000000000000''"
proof -
  let ?c = "sampleCtx 10 6 56 sampleTweak"
  have r: "radix ?c = 10" by (simp add: sampleCtx_def)
  have e: "encrypt ?c ''10000000000000000000'' = Inr ''54426713081248133385''" by code_simp
  have d: "decrypt ?c ''10000000000000000000'' = Inr ''64736791491581783382''" by code_simp
  note t = length_not_preserved [OF r]
  from t e have "decrypt ?c ''54426713081248133385'' = Inr ''100000000000000000''" by fastforce
  moreover from t d have "encrypt ?c ''64736791491581783382'' = Inr ''100000000000000000''"
    by fastforce
  ultimately show ?thesis using r e d by simp
qed

section \<open>Messages of at most 18 symbols\<close>

text \<open>Where no half is longer than nine symbols the padding always suffices: for a
  constructed cipher object with a tweak of 7 or 8 bytes and a block cipher that returns
  a block, every digit string of admissible length up to 18 is encrypted to a digit string
  of the same length, which decrypts to it.\<close>

lemma short_messages_roundtrip:
  assumes c: "FF3Cipher_constructor cc key tweak rdx = Inr ctx"
      and t: "length (hexDecode tweak) = 7 \<or> length (hexDecode tweak) = 8"
      and o: "\<And>b. aesCipher ctx b \<noteq> []"
      and x: "validDigits rdx x"
      and n: "minLen ctx \<le> int (length x)" "length x \<le> 18"
  shows "\<exists>y. encrypt ctx x = Inr y \<and> decrypt ctx y = Inr x
             \<and> length y = length x \<and> validDigits rdx y"
proof -
  note k = constructor_Inr [OF c]
  have R: "2 \<le> radix ctx" "radix ctx \<le> 36" using k by simp_all
  have n2: "2 \<le> length x" using n(1) k(7) by simp
  have mx: "int (length x) \<le> maxLen ctx"
  proof -
    have "36 \<le> maxLen ctx" using ln_quot_bounds(3) [OF k(2,3)] k(6) by simp
    then show ?thesis using n(2) by simp
  qed
  from encrypt_succeeds [OF c t x n(1) mx o] obtain y where e: "encrypt ctx x = Inr y" by blast
  note rt = roundtrip_short [OF R x [folded k(4)] n2 n(2) e]
  have "validDigits rdx y" using output_digits(1) [OF R n2 disjI1 [OF e]] k(4) by simp
  with e rt show ?thesis by blast
qed

end
